theory Spec2Isabelle
  imports Main "HOL-Library.Word"
begin

unbundle bit_operations_syntax

section \<open>Machine integers, errors\<close>

type_synonym byte = "8 word"
type_synonym u16 = "16 word"
type_synonym u32 = "32 word"
type_synonym u64 = "64 word"

text \<open>The errors the protocol package returns (its \<open>fmt.Errorf\<close> messages).\<close>

datatype error =
    BufferOverflow
  | UnsupportedIPVersion byte
  | PacketTooShort
  | NotADataPacket

section \<open>BitStream (package protocol)\<close>

record BitStream =
  data :: "byte list"
  offset :: nat

definition NewBitStream :: "byte list \<Rightarrow> BitStream" where
  "NewBitStream d = \<lparr>data = d, offset = 0\<rparr>"

definition NewEmptyBitStream :: BitStream where
  "NewEmptyBitStream = \<lparr>data = [], offset = 0\<rparr>"

text \<open>A read returns the value or the error, and the stream as the call leaves it:
  a failed read does not move the offset.\<close>

definition ReadByte :: "BitStream \<Rightarrow> (error + byte) \<times> BitStream" where
  "ReadByte bs =
     (if offset bs \<ge> length (data bs) then (Inl BufferOverflow, bs)
      else (Inr (data bs ! offset bs), bs\<lparr>offset := offset bs + 1\<rparr>))"

definition ReadBytes :: "BitStream \<Rightarrow> nat \<Rightarrow> (error + byte list) \<times> BitStream" where
  "ReadBytes bs n =
     (if offset bs + n > length (data bs) then (Inl BufferOverflow, bs)
      else (Inr (take n (drop (offset bs) (data bs))), bs\<lparr>offset := offset bs + n\<rparr>))"

text \<open>\<open>binary.BigEndian.Uint16\<close> and \<open>Uint32\<close> of the Go library, on a slice that is
  long enough (the callers have checked).\<close>

definition BigEndian_Uint16 :: "byte list \<Rightarrow> u16" where
  "BigEndian_Uint16 b = push_bit 8 (ucast (b ! 0)) OR ucast (b ! 1)"

definition BigEndian_Uint32 :: "byte list \<Rightarrow> u32" where
  "BigEndian_Uint32 b =
     push_bit 24 (ucast (b ! 0)) OR push_bit 16 (ucast (b ! 1)) OR
     push_bit 8 (ucast (b ! 2)) OR ucast (b ! 3)"

definition ReadUint16 :: "BitStream \<Rightarrow> (error + u16) \<times> BitStream" where
  "ReadUint16 bs =
     (case ReadBytes bs 2 of
        (Inl e, bs') \<Rightarrow> (Inl e, bs')
      | (Inr d, bs') \<Rightarrow> (Inr (BigEndian_Uint16 d), bs'))"

definition ReadUint32 :: "BitStream \<Rightarrow> (error + u32) \<times> BitStream" where
  "ReadUint32 bs =
     (case ReadBytes bs 4 of
        (Inl e, bs') \<Rightarrow> (Inl e, bs')
      | (Inr d, bs') \<Rightarrow> (Inr (BigEndian_Uint32 d), bs'))"

definition ReadUint24 :: "BitStream \<Rightarrow> (error + u32) \<times> BitStream" where
  "ReadUint24 bs =
     (case ReadByte bs of
        (Inl e, bs1) \<Rightarrow> (Inl e, bs1)
      | (Inr b1, bs1) \<Rightarrow>
     (case ReadByte bs1 of
        (Inl e, bs2) \<Rightarrow> (Inl e, bs2)
      | (Inr b2, bs2) \<Rightarrow>
     (case ReadByte bs2 of
        (Inl e, bs3) \<Rightarrow> (Inl e, bs3)
      | (Inr b3, bs3) \<Rightarrow>
          (Inr (ucast b1 OR push_bit 8 (ucast b2) OR push_bit 16 (ucast b3)), bs3))))"

definition WriteByte :: "BitStream \<Rightarrow> byte \<Rightarrow> BitStream" where
  "WriteByte bs b = bs\<lparr>data := data bs @ [b]\<rparr>"

definition WriteBytes :: "BitStream \<Rightarrow> byte list \<Rightarrow> BitStream" where
  "WriteBytes bs d = bs\<lparr>data := data bs @ d\<rparr>"

text \<open>\<open>binary.BigEndian.PutUint16\<close> and \<open>PutUint32\<close> into a fresh buffer.\<close>

definition BigEndian_PutUint16 :: "u16 \<Rightarrow> byte list" where
  "BigEndian_PutUint16 v = [ucast (drop_bit 8 v), ucast v]"

definition BigEndian_PutUint32 :: "u32 \<Rightarrow> byte list" where
  "BigEndian_PutUint32 v =
     [ucast (drop_bit 24 v), ucast (drop_bit 16 v), ucast (drop_bit 8 v), ucast v]"

definition WriteUint16 :: "BitStream \<Rightarrow> u16 \<Rightarrow> BitStream" where
  "WriteUint16 bs v = bs\<lparr>data := data bs @ BigEndian_PutUint16 v\<rparr>"

definition WriteUint32 :: "BitStream \<Rightarrow> u32 \<Rightarrow> BitStream" where
  "WriteUint32 bs v = bs\<lparr>data := data bs @ BigEndian_PutUint32 v\<rparr>"

definition WriteUint24 :: "BitStream \<Rightarrow> u32 \<Rightarrow> BitStream" where
  "WriteUint24 bs v =
     WriteByte (WriteByte (WriteByte bs (ucast v)) (ucast (drop_bit 8 v))) (ucast (drop_bit 16 v))"

definition GetData :: "BitStream \<Rightarrow> byte list" where
  "GetData bs = data bs"

subsection \<open>Addresses\<close>

text \<open>\<open>net.IP\<close> is a byte slice and \<open>net.UDPAddr\<close> holds one with an \<open>int\<close> port.
  \<open>IPv4\<close> and \<open>To4\<close> follow the Go library: an IPv4 address is kept in the 16-byte
  form behind the prefix \<open>00 .. 00 FF FF\<close>, and \<open>To4\<close> gives its four octets back
  (\<open>None\<close> is Go's \<open>nil\<close>).\<close>

type_synonym IP = "byte list"

record UDPAddr =
  IP :: IP
  Port :: int

definition v4InV6Prefix :: "byte list" where
  "v4InV6Prefix = [0, 0, 0, 0, 0, 0, 0, 0, 0, 0, 0xFF, 0xFF]"

definition IPv4 :: "byte \<Rightarrow> byte \<Rightarrow> byte \<Rightarrow> byte \<Rightarrow> IP" where
  "IPv4 a b c d = v4InV6Prefix @ [a, b, c, d]"

definition To4 :: "IP \<Rightarrow> IP option" where
  "To4 ip =
     (if length ip = 4 then Some ip
      else if length ip = 16 \<and> take 12 ip = v4InV6Prefix then Some (drop 12 ip)
      else None)"

text \<open>\<open>ReadAddress\<close> inverts the four address bytes in place: \<open>ipBytes\<close> is a slice of
  the stream's own array, so the stream's data is changed too.\<close>

definition ReadAddress :: "BitStream \<Rightarrow> (error + UDPAddr) \<times> BitStream" where
  "ReadAddress bs =
     (case ReadByte bs of
        (Inl e, bs1) \<Rightarrow> (Inl e, bs1)
      | (Inr version, bs1) \<Rightarrow>
          if version = 4 then
            (case ReadBytes bs1 4 of
               (Inl e, bs2) \<Rightarrow> (Inl e, bs2)
             | (Inr raw, bs2) \<Rightarrow>
                 let ipBytes = map (\<lambda>b. NOT b) raw;
                     bs2' = bs2\<lparr>data := take (offset bs1) (data bs2) @ ipBytes
                                          @ drop (offset bs1 + 4) (data bs2)\<rparr>;
                     ip = IPv4 (ipBytes ! 0) (ipBytes ! 1) (ipBytes ! 2) (ipBytes ! 3)
                 in (case ReadUint16 bs2' of
                       (Inl e, bs3) \<Rightarrow> (Inl e, bs3)
                     | (Inr port, bs3) \<Rightarrow> (Inr \<lparr>IP = ip, Port = uint port\<rparr>, bs3)))
          else (Inl (UnsupportedIPVersion version), bs1))"

definition WriteAddress :: "BitStream \<Rightarrow> UDPAddr \<Rightarrow> BitStream" where
  "WriteAddress bs addr =
     (case To4 (IP addr) of
        None \<Rightarrow> bs
      | Some ip \<Rightarrow>
          let bs1 = WriteByte bs 4;
              bs2 = foldl (\<lambda>b i. WriteByte b (NOT (ip ! i))) bs1 [0..<4];
              port = (word_of_int (Port addr) :: u16);
              bs3 = WriteByte bs2 (ucast (port AND 0xFF))
          in WriteByte bs3 (ucast (drop_bit 8 port AND 0xFF)))"

section \<open>Encapsulated packets and datagrams (package protocol)\<close>

record RakNetPacket =
  PacketID :: byte
  Reliability :: byte
  MessageIndex :: u32
  OrderIndex :: u32
  OrderChannel :: byte
  Payload :: "byte list"

definition UNRELIABLE :: byte where "UNRELIABLE = 0"
definition UNRELIABLE_SEQUENCED :: byte where "UNRELIABLE_SEQUENCED = 1"
definition RELIABLE :: byte where "RELIABLE = 2"
definition RELIABLE_ORDERED :: byte where "RELIABLE_ORDERED = 3"
definition RELIABLE_SEQUENCED :: byte where "RELIABLE_SEQUENCED = 4"
definition UNRELIABLE_WITH_ACK :: byte where "UNRELIABLE_WITH_ACK = 5"
definition RELIABLE_WITH_ACK :: byte where "RELIABLE_WITH_ACK = 6"
definition RELIABLE_ORDERED_WITH_ACK :: byte where "RELIABLE_ORDERED_WITH_ACK = 7"

lemmas reliability_defs =
  UNRELIABLE_def UNRELIABLE_SEQUENCED_def RELIABLE_def RELIABLE_ORDERED_def
  RELIABLE_SEQUENCED_def UNRELIABLE_WITH_ACK_def RELIABLE_WITH_ACK_def
  RELIABLE_ORDERED_WITH_ACK_def

record EncapsulatedPacket =
  Reliability :: byte
  MessageIndex :: u32
  OrderIndex :: u32
  OrderChannel :: byte
  Split :: bool
  SplitCount :: u32
  SplitID :: u16
  SplitIndex :: u32
  Payload :: "byte list"

text \<open>The zero value \<open>&EncapsulatedPacket{}\<close>.\<close>

definition zeroEncapsulatedPacket :: EncapsulatedPacket where
  "zeroEncapsulatedPacket =
     \<lparr>Reliability = 0, MessageIndex = 0, OrderIndex = 0, OrderChannel = 0, Split = False,
      SplitCount = 0, SplitID = 0, SplitIndex = 0, Payload = []\<rparr>"

text \<open>The three tests on the reliability that \<open>GetSize\<close>, \<open>Encode\<close>,
  \<open>DecodeDataPacket\<close> and \<open>AddToQueue\<close> all spell out.\<close>

definition hasMessageIndex :: "byte \<Rightarrow> bool" where
  "hasMessageIndex r \<longleftrightarrow>
     r = RELIABLE \<or> r = RELIABLE_ORDERED \<or> r = RELIABLE_SEQUENCED \<or>
     r = RELIABLE_WITH_ACK \<or> r = RELIABLE_ORDERED_WITH_ACK"

definition hasSequenceIndex :: "byte \<Rightarrow> bool" where
  "hasSequenceIndex r \<longleftrightarrow> r = UNRELIABLE_SEQUENCED \<or> r = RELIABLE_SEQUENCED"

definition hasOrderIndex :: "byte \<Rightarrow> bool" where
  "hasOrderIndex r \<longleftrightarrow> r = RELIABLE_ORDERED \<or> r = RELIABLE_ORDERED_WITH_ACK"

definition GetSize :: "EncapsulatedPacket \<Rightarrow> nat" where
  "GetSize ep =
     3 + (if hasMessageIndex (Reliability ep) then 3 else 0)
       + (if hasSequenceIndex (Reliability ep) then 3 else 0)
       + (if hasOrderIndex (Reliability ep) then 4 else 0)
       + (if Split ep then 10 else 0)
       + length (Payload ep)"

record DataPacket =
  SequenceNumber :: u32
  Packets :: "EncapsulatedPacket list"

definition NewDataPacket :: DataPacket where
  "NewDataPacket = \<lparr>SequenceNumber = 0, Packets = []\<rparr>"

text \<open>The body of the loop of \<open>DataPacket.Encode\<close>: one encapsulated packet appended to
  the stream.\<close>

definition encodePacket :: "BitStream \<Rightarrow> EncapsulatedPacket \<Rightarrow> BitStream" where
  "encodePacket bs packet =
     (let flags0 = (push_bit 5 (Reliability packet) :: byte);
          flags = (if Split packet then flags0 OR 0x10 else flags0);
          bs = WriteByte bs flags;
          len = (of_nat (length (Payload packet) * 8) :: u16);
          bs = WriteUint16 bs len;
          bs = (if hasMessageIndex (Reliability packet)
                then WriteUint24 bs (MessageIndex packet) else bs);
          bs = (if hasSequenceIndex (Reliability packet)
                then WriteUint24 bs (OrderIndex packet) else bs);
          bs = (if hasOrderIndex (Reliability packet)
                then WriteByte (WriteUint24 bs (OrderIndex packet)) (OrderChannel packet)
                else bs);
          bs = (if Split packet
                then WriteUint32 (WriteUint16 (WriteUint32 bs (SplitCount packet))
                                    (SplitID packet)) (SplitIndex packet)
                else bs)
      in WriteBytes bs (Payload packet))"

definition DataPacket_Encode :: "DataPacket \<Rightarrow> byte list" where
  "DataPacket_Encode dp =
     GetData (foldl encodePacket
                (WriteUint24 (WriteByte NewEmptyBitStream 0x80) (SequenceNumber dp))
                (Packets dp))"

text \<open>\<open>DecodeDataPacket\<close> reads the slice by index. A 24-bit little-endian and a
  big-endian read at an offset, as the decoder writes them out:\<close>

definition le24At :: "byte list \<Rightarrow> nat \<Rightarrow> u32" where
  "le24At d i = ucast (d ! i) OR push_bit 8 (ucast (d ! (i + 1))) OR push_bit 16 (ucast (d ! (i + 2)))"

definition be32At :: "byte list \<Rightarrow> nat \<Rightarrow> u32" where
  "be32At d i =
     push_bit 24 (ucast (d ! i)) OR push_bit 16 (ucast (d ! (i + 1))) OR
     push_bit 8 (ucast (d ! (i + 2))) OR ucast (d ! (i + 3))"

definition be16At :: "byte list \<Rightarrow> nat \<Rightarrow> u16" where
  "be16At d i = push_bit 8 (ucast (d ! i)) OR ucast (d ! (i + 1))"

text \<open>The stages of one pass through the decoder's loop. Each takes the packet and the
  offset so far; \<open>None\<close> is the \<open>break\<close> of the source, which ends the loop and drops
  the packet under construction.\<close>

definition decMessageIndex ::
  "byte list \<Rightarrow> EncapsulatedPacket \<times> nat \<Rightarrow> (EncapsulatedPacket \<times> nat) option" where
  "decMessageIndex d = (\<lambda>(packet, off).
     if hasMessageIndex (Reliability packet) then
       (if off + 3 > length d then None
        else Some (packet\<lparr>MessageIndex := le24At d off\<rparr>, off + 3))
     else Some (packet, off))"

definition decSequenceIndex ::
  "byte list \<Rightarrow> EncapsulatedPacket \<times> nat \<Rightarrow> (EncapsulatedPacket \<times> nat) option" where
  "decSequenceIndex d = (\<lambda>(packet, off).
     if hasSequenceIndex (Reliability packet) then
       (if off + 3 > length d then None else Some (packet, off + 3))
     else Some (packet, off))"

definition decOrderIndex ::
  "byte list \<Rightarrow> EncapsulatedPacket \<times> nat \<Rightarrow> (EncapsulatedPacket \<times> nat) option" where
  "decOrderIndex d = (\<lambda>(packet, off).
     if hasOrderIndex (Reliability packet) then
       (if off + 4 > length d then None
        else Some (packet\<lparr>OrderIndex := le24At d off, OrderChannel := d ! (off + 3)\<rparr>, off + 4))
     else Some (packet, off))"

definition decSplit ::
  "byte list \<Rightarrow> EncapsulatedPacket \<times> nat \<Rightarrow> (EncapsulatedPacket \<times> nat) option" where
  "decSplit d = (\<lambda>(packet, off).
     if Split packet then
       (if off + 10 > length d then None
        else Some (packet\<lparr>SplitCount := be32At d off, SplitID := be16At d (off + 4),
                          SplitIndex := be32At d (off + 6)\<rparr>, off + 10))
     else Some (packet, off))"

definition decPayload ::
  "byte list \<Rightarrow> nat \<Rightarrow> EncapsulatedPacket \<times> nat \<Rightarrow> (EncapsulatedPacket \<times> nat) option" where
  "decPayload d lengthBytes = (\<lambda>(packet, off).
     if off + lengthBytes > length d then None
     else Some (packet\<lparr>Payload := take lengthBytes (drop off d)\<rparr>, off + lengthBytes))"

text \<open>One pass: the packet decoded at \<open>offset\<close> and the offset behind it. The caller has
  checked \<open>offset < length d\<close>. The length is in bits, and \<open>(lengthBits + 7) / 8\<close> is
  computed in \<open>uint16\<close>.\<close>

definition decodePacket :: "byte list \<Rightarrow> nat \<Rightarrow> (EncapsulatedPacket \<times> nat) option" where
  "decodePacket d offset0 =
     (let encFlags = d ! offset0;
          off = offset0 + 1;
          packet = zeroEncapsulatedPacket
                     \<lparr>Reliability := drop_bit 5 encFlags AND 0x07,
                      Split := (encFlags AND 0x10 \<noteq> 0)\<rparr>
      in if off + 1 \<ge> length d then None
         else
           let lengthBits = be16At d off;
               off = off + 2;
               lengthBytes = unat ((lengthBits + 7) div 8)
           in Option.bind (Option.bind (Option.bind (Option.bind
                (decMessageIndex d (packet, off))
                (decSequenceIndex d)) (decOrderIndex d)) (decSplit d))
                (decPayload d lengthBytes))"

function decodeLoop :: "byte list \<Rightarrow> nat \<Rightarrow> EncapsulatedPacket list \<Rightarrow> EncapsulatedPacket list"
  where
  "decodeLoop d off acc =
     (if off < length d then
        (case decodePacket d off of
           None \<Rightarrow> acc
         | Some (packet, off') \<Rightarrow> decodeLoop d off' (acc @ [packet]))
      else acc)"
  by pat_completeness auto
termination
proof (relation "measure (\<lambda>(d, off, acc). length d - off)")
  show "wf (measure (\<lambda>(d, off, acc). length d - off))" by simp
next
  fix d :: "byte list" and off acc r packet off'
  assume "off < length d" "decodePacket d off = Some r" "(packet, off') = r"
  then show "((d, off', acc @ [packet]), (d, off, acc))
               \<in> measure (\<lambda>(d, off, acc). length d - off)"
    unfolding decodePacket_def Let_def decMessageIndex_def decSequenceIndex_def
      decOrderIndex_def decSplit_def decPayload_def
    by (auto split: if_splits simp: Option.bind_eq_Some_conv)
qed

declare decodeLoop.simps [simp del]

definition DecodeDataPacket :: "byte list \<Rightarrow> error + DataPacket" where
  "DecodeDataPacket d =
     (if length d < 4 then Inl PacketTooShort
      else if (d ! 0) AND 0x80 = 0 then Inl NotADataPacket
      else Inr \<lparr>SequenceNumber = le24At d 1, Packets = decodeLoop d 4 []\<rparr>)"

section \<open>ACK and NACK encoders\<close>

text \<open>Package protocol: \<open>ACK.Encode\<close> and \<open>NACK.Encode\<close>, appending to a buffer.\<close>

definition appendSeq :: "byte list \<Rightarrow> u32 \<Rightarrow> byte list" where
  "appendSeq buf seq = buf @ [ucast seq] @ [ucast (drop_bit 8 seq)] @ [ucast (drop_bit 16 seq)]"

definition ACK_Encode :: "u32 list \<Rightarrow> byte list" where
  "ACK_Encode packets =
     (let buf = [0xC0];
          count = (of_nat (length packets) :: u16);
          buf = buf @ [ucast count];
          buf = buf @ [ucast (drop_bit 8 count)]
      in foldl appendSeq buf packets)"

definition NACK_Encode :: "u32 list \<Rightarrow> byte list" where
  "NACK_Encode packets =
     (let buf = [0xA0];
          count = (of_nat (length packets) :: u16);
          buf = buf @ [ucast count];
          buf = buf @ [ucast (drop_bit 8 count)]
      in foldl appendSeq buf packets)"

text \<open>Package raknet (\<open>pkg/raknet/protocol.go\<close>): \<open>WriteUint24LE\<close> and \<open>EncodeACK\<close>,
  which puts a record-type byte before every sequence.\<close>

definition ID_ACK :: byte where "ID_ACK = 0xC0"

definition WriteUint24LE :: "u32 \<Rightarrow> byte list" where
  "WriteUint24LE v = [ucast v, ucast (drop_bit 8 v), ucast (drop_bit 16 v)]"

definition EncodeACK :: "u32 list \<Rightarrow> byte list" where
  "EncodeACK sequences =
     (let buf = [ID_ACK];
          count = (of_nat (length sequences) :: u16);
          buf = buf @ [ucast count, ucast (drop_bit 8 count)]
      in foldl (\<lambda>buf seq. (buf @ [0x01]) @ WriteUint24LE seq) buf sequences)"

section \<open>Safe payload size (package protocol)\<close>



section \<open>Session (package protocol)\<close>

text \<open>\<open>time.Time\<close> values are kept as abstract instants; the clock reading \<open>time.Now()\<close>
  is an argument of the operations that take it.\<close>

type_synonym Time = nat

text \<open>Go maps are partial maps; \<open>ACKQueue\<close>, a \<open>map[uint32]struct{}\<close>, is the set of its
  keys. The two mutexes are left out: every operation below runs with the session lock
  held from start to end.\<close>

record Session =
  Addr :: UDPAddr
  MTU :: u16
  GUID :: u64
  State :: int
  MessageIndex :: u32
  SequenceNumber :: u32
  OrderIndex :: u32
  ChannelOrderIndex :: "byte \<rightharpoonup> u32"
  SplitID :: u16
  SplitInProgress :: bool
  SendQueue :: "EncapsulatedPacket list"
  RecoveryQueue :: "u32 \<rightharpoonup> DataPacket"
  ACKQueue :: "u32 set"
  NACKQueue :: "u32 list"
  SplitPackets :: "u16 \<rightharpoonup> (u32 \<rightharpoonup> EncapsulatedPacket)"
  LastReceiveTime :: Time
  LastSendTime :: Time
  LastTenSent :: Time
  Cookie :: "byte list"
  ReceivedJoinRequest :: bool
  HandshakeSent :: bool
  StreamingDone :: bool
  GameEntrySent :: bool
  PostStreamingSent :: bool
  JoinResponseSent :: bool
  PendingAuth :: bool
  AuthSequence :: "byte list"
  AuthPayload :: "byte list"
  PlayerID :: u16
  Nickname :: string
  SentE3Phase0 :: bool
  SentE3Phase1 :: bool
  SentE3Phase7 :: bool
  SentNWBitStream :: bool
  AuthHandled :: bool
  SendSeq :: u32
  PendingACK :: "u32 \<rightharpoonup> byte list"

definition STATE_UNCONNECTED :: int where "STATE_UNCONNECTED = 0"

definition NewSession :: "UDPAddr \<Rightarrow> u16 \<Rightarrow> Time \<Rightarrow> Session" where
  "NewSession addr mtu now =
     \<lparr>Addr = addr, MTU = mtu, GUID = 0, State = STATE_UNCONNECTED, MessageIndex = 0,
      SequenceNumber = 0, OrderIndex = 0, ChannelOrderIndex = Map.empty, SplitID = 0,
      SplitInProgress = False, SendQueue = [], RecoveryQueue = Map.empty, ACKQueue = {},
      NACKQueue = [], SplitPackets = Map.empty, LastReceiveTime = now, LastSendTime = now,
      LastTenSent = 0, Cookie = [], ReceivedJoinRequest = False, HandshakeSent = False,
      StreamingDone = False, GameEntrySent = False, PostStreamingSent = False,
      JoinResponseSent = False, PendingAuth = False, AuthSequence = [], AuthPayload = [],
      PlayerID = 0, Nickname = [], SentE3Phase0 = False, SentE3Phase1 = False,
      SentE3Phase7 = False, SentNWBitStream = False, AuthHandled = False, SendSeq = 0,
      PendingACK = Map.empty\<rparr>"

subsection \<open>AddToQueue\<close>

text \<open>The packet is passed by pointer and stamped in place; the stamped packet is the
  one appended to the queue. Each call is taken with a packet of its own.\<close>

definition AddToQueue :: "Session \<Rightarrow> EncapsulatedPacket \<Rightarrow> Session" where
  "AddToQueue s packet =
     (let (packet, s) =
            (if hasMessageIndex (EncapsulatedPacket.Reliability packet)
             then (packet\<lparr>EncapsulatedPacket.MessageIndex := Session.MessageIndex s\<rparr>,
                   s\<lparr>Session.MessageIndex := Session.MessageIndex s + 1\<rparr>)
             else (packet, s));
          (packet, s) =
            (if hasOrderIndex (EncapsulatedPacket.Reliability packet)
             then (packet\<lparr>EncapsulatedPacket.OrderIndex := Session.OrderIndex s\<rparr>,
                   s\<lparr>Session.OrderIndex := Session.OrderIndex s + 1\<rparr>)
             else (packet, s))
      in s\<lparr>SendQueue := SendQueue s @ [packet]\<rparr>)"

subsection \<open>Update\<close>

text \<open>The loop that moves packets from the send queue into the datagram:
  \<open>for len(s.SendQueue) > 0 && len(dp.Packets) < 120\<close>.\<close>

fun drainQueue ::
  "EncapsulatedPacket list \<Rightarrow> EncapsulatedPacket list
     \<Rightarrow> EncapsulatedPacket list \<times> EncapsulatedPacket list" where
  "drainQueue [] packets = ([], packets)"
| "drainQueue (packet # queue) packets =
     (if length packets < 120 then drainQueue queue (packets @ [packet])
      else (packet # queue, packets))"

text \<open>\<open>Update\<close> returns the session and the byte strings handed to \<open>conn.WriteToUDP\<close>,
  in order; a failed write is only logged. Go ranges over a map in no fixed order:
  \<open>ackSeqs\<close> is the order in which the range over \<open>ACKQueue\<close> gave the keys.\<close>

definition Update :: "Session \<Rightarrow> u32 list \<Rightarrow> Time \<Rightarrow> Session \<times> byte list list" where
  "Update s ackSeqs now =
     (let (s, sent) =
            (if ACKQueue s \<noteq> {}
             then (s\<lparr>ACKQueue := {}\<rparr>, if ackSeqs \<noteq> [] then [ACK_Encode ackSeqs] else [])
             else (s, []));
          (s, sent) =
            (if NACKQueue s \<noteq> []
             then (s\<lparr>NACKQueue := []\<rparr>, sent @ [NACK_Encode (NACKQueue s)])
             else (s, sent))
      in if SendQueue s \<noteq> [] then
           let dp = NewDataPacket\<lparr>DataPacket.SequenceNumber := Session.SequenceNumber s\<rparr>;
               s = s\<lparr>Session.SequenceNumber := Session.SequenceNumber s + 1\<rparr>;
               (queue, packets) = drainQueue (SendQueue s) (Packets dp);
               s = s\<lparr>SendQueue := queue\<rparr>;
               dp = dp\<lparr>Packets := packets\<rparr>;
               data = DataPacket_Encode dp;
               s = s\<lparr>RecoveryQueue := (RecoveryQueue s)(DataPacket.SequenceNumber dp \<mapsto> dp)\<rparr>
           in (s\<lparr>LastSendTime := now\<rparr>, sent @ [data])
         else (s, sent))"

subsection \<open>HandleDataPacket\<close>

text \<open>A call either returns its packets or panics (a nil pointer dereference); the
  session is given as the call leaves it in both cases.\<close>

datatype 'a outcome = Returned 'a | Panicked

text \<open>The reassembly loop \<open>for i := uint32(0); i < encap.SplitCount; i++\<close>, writing
  \<open>s.SplitPackets[encap.SplitID][i].Payload\<close> to the buffer. A missing key gives a nil
  pointer, and reading its \<open>Payload\<close> panics: \<open>None\<close>.\<close>

definition concatFragments :: "(u32 \<rightharpoonup> EncapsulatedPacket) \<Rightarrow> u32 \<Rightarrow> byte list option" where
  "concatFragments frags n =
     foldl (\<lambda>buffer i.
              case buffer of
                None \<Rightarrow> None
              | Some b \<Rightarrow> (case frags i of
                            None \<Rightarrow> None
                          | Some frag \<Rightarrow> Some (b @ EncapsulatedPacket.Payload frag)))
           (Some []) (map of_nat [0..<unat n])"

definition toRakNetPacket :: "byte list \<Rightarrow> RakNetPacket" where
  "toRakNetPacket b =
     \<lparr>PacketID = hd b, Reliability = 0, MessageIndex = 0, OrderIndex = 0, OrderChannel = 0,
      Payload = tl b\<rparr>"

text \<open>The second half of the loop body: split packets are buffered and reassembled,
  the others are handed up. \<open>len\<close> of a Go map is the number of its keys (the maps of a
  running session are finite).\<close>

definition deliverEncap ::
  "Session \<Rightarrow> RakNetPacket list \<Rightarrow> EncapsulatedPacket \<Rightarrow> Session \<times> RakNetPacket list outcome"
  where
  "deliverEncap s packets encap =
     (if Split encap then
        let frags = (case SplitPackets s (EncapsulatedPacket.SplitID encap) of None \<Rightarrow> Map.empty | Some g \<Rightarrow> g);
            frags = frags(SplitIndex encap \<mapsto> encap);
            s = s\<lparr>SplitPackets := (SplitPackets s)(EncapsulatedPacket.SplitID encap \<mapsto> frags)\<rparr>
        in if (of_nat (card (dom frags)) :: u32) = SplitCount encap then
             (case concatFragments frags (SplitCount encap) of
                None \<Rightarrow> (s, Panicked)
              | Some buffer \<Rightarrow>
                  (s\<lparr>SplitPackets := (SplitPackets s)(EncapsulatedPacket.SplitID encap := None)\<rparr>,
                   Returned (if buffer \<noteq> [] then packets @ [toRakNetPacket buffer]
                             else packets)))
           else (s, Returned packets)
      else (s, Returned (if EncapsulatedPacket.Payload encap \<noteq> []
                         then packets @ [toRakNetPacket (EncapsulatedPacket.Payload encap)]
                         else packets)))"

text \<open>\<open>s.ChannelOrderIndex[channel]\<close>: a missing key reads as zero.\<close>

definition expectedOrder :: "Session \<Rightarrow> byte \<Rightarrow> u32" where
  "expectedOrder s channel = (case ChannelOrderIndex s channel of None \<Rightarrow> 0 | Some v \<Rightarrow> v)"

text \<open>The whole loop body. The first branch is the \<open>continue\<close> on a duplicate.\<close>

definition handleEncap ::
  "Session \<Rightarrow> RakNetPacket list \<Rightarrow> EncapsulatedPacket \<Rightarrow> Session \<times> RakNetPacket list outcome"
  where
  "handleEncap s packets encap =
     (if hasOrderIndex (EncapsulatedPacket.Reliability encap) then
        let channel = EncapsulatedPacket.OrderChannel encap;
            expectedOrderIndex = expectedOrder s channel
        in if EncapsulatedPacket.OrderIndex encap < expectedOrderIndex
           then (s, Returned packets)
           else
             let s = (if EncapsulatedPacket.OrderIndex encap = expectedOrderIndex
                      then s\<lparr>ChannelOrderIndex :=
                               (ChannelOrderIndex s)(channel \<mapsto> expectedOrderIndex + 1)\<rparr>
                      else s)
             in deliverEncap s packets encap
      else deliverEncap s packets encap)"

fun handleEncaps ::
  "Session \<Rightarrow> RakNetPacket list \<Rightarrow> EncapsulatedPacket list
     \<Rightarrow> Session \<times> RakNetPacket list outcome" where
  "handleEncaps s packets [] = (s, Returned packets)"
| "handleEncaps s packets (encap # rest) =
     (case handleEncap s packets encap of
        (s', Panicked) \<Rightarrow> (s', Panicked)
      | (s', Returned packets') \<Rightarrow> handleEncaps s' packets' rest)"

definition HandleDataPacket ::
  "Session \<Rightarrow> DataPacket \<Rightarrow> Time \<Rightarrow> Session \<times> RakNetPacket list outcome" where
  "HandleDataPacket s dp now =
     (let s = (if Packets dp \<noteq> []
               then s\<lparr>ACKQueue := insert (DataPacket.SequenceNumber dp) (ACKQueue s)\<rparr>
               else s);
          s = s\<lparr>LastReceiveTime := now\<rparr>
      in handleEncaps s [] (Packets dp))"

subsection \<open>HandleACK and HandleNACK\<close>

text \<open>Both handlers drop the errors of their reads (\<open>count, _ := bs.ReadUint16()\<close>); a
  failed read gives the zero value.\<close>

definition orZero :: "(error + 'a::zero) \<times> BitStream \<Rightarrow> 'a \<times> BitStream" where
  "orZero r = (case r of (Inl e, bs) \<Rightarrow> (0, bs) | (Inr v, bs) \<Rightarrow> (v, bs))"

text \<open>The sequences of \<open>for seq := start; seq <= end; seq++\<close>. Both bounds come from
  \<open>ReadUint24\<close> and are below \<open>2^24\<close>, so the \<open>uint32\<close> counter does not wrap.\<close>

definition seqRange :: "u32 \<Rightarrow> u32 \<Rightarrow> u32 list" where
  "seqRange start endSeq = map of_nat [unat start..<Suc (unat endSeq)]"

text \<open>One record: the single/range flag byte is skipped, then start and end.\<close>

definition readRecord :: "BitStream \<Rightarrow> (u32 \<times> u32) \<times> BitStream" where
  "readRecord bs =
     (let (flag, bs) = orZero (ReadByte bs);
          (start, bs) = orZero (ReadUint24 bs);
          (endSeq, bs) = orZero (ReadUint24 bs)
      in ((start, endSeq), bs))"

definition deleteRecovery :: "Session \<Rightarrow> u32 \<Rightarrow> Session" where
  "deleteRecovery s seq = s\<lparr>RecoveryQueue := (RecoveryQueue s)(seq := None)\<rparr>"

fun ackLoop :: "nat \<Rightarrow> BitStream \<Rightarrow> Session \<Rightarrow> Session" where
  "ackLoop 0 bs s = s"
| "ackLoop (Suc n) bs s =
     (let ((start, endSeq), bs) = readRecord bs
      in ackLoop n bs (foldl deleteRecovery s (seqRange start endSeq)))"

definition HandleACK :: "Session \<Rightarrow> byte list \<Rightarrow> Session" where
  "HandleACK s d =
     (let bs = NewBitStream d;
          (flag, bs) = orZero (ReadByte bs);
          (count, bs) = orZero (ReadUint16 bs)
      in ackLoop (unat count) bs s)"

definition requeue :: "Session \<Rightarrow> u32 \<Rightarrow> Session" where
  "requeue s seq =
     (case RecoveryQueue s seq of
        None \<Rightarrow> s
      | Some dp \<Rightarrow> foldl (\<lambda>s packet. s\<lparr>SendQueue := SendQueue s @ [packet]\<rparr>) s (Packets dp))"

fun nackLoop :: "nat \<Rightarrow> BitStream \<Rightarrow> Session \<Rightarrow> Session" where
  "nackLoop 0 bs s = s"
| "nackLoop (Suc n) bs s =
     (let ((start, endSeq), bs) = readRecord bs
      in nackLoop n bs (foldl requeue s (seqRange start endSeq)))"

definition HandleNACK :: "Session \<Rightarrow> byte list \<Rightarrow> Session" where
  "HandleNACK s d =
     (let bs = NewBitStream d;
          (flag, bs) = orZero (ReadByte bs);
          (count, bs) = orZero (ReadUint16 bs)
      in nackLoop (unat count) bs s)"

subsection \<open>What an ACK or a NACK names\<close>

text \<open>The sequences that the records of a packet name, in the order in which \<open>ackLoop\<close>
  and \<open>nackLoop\<close> visit them: the same reads, without the session. \<open>recoveryPackets\<close>
  is the lookup of \<open>HandleNACK\<close>: the packets of the stored datagram, none when the
  sequence has no entry.\<close>

fun recordSeqs :: "nat \<Rightarrow> BitStream \<Rightarrow> u32 list" where
  "recordSeqs 0 bs = []"
| "recordSeqs (Suc n) bs =
     (let ((start, endSeq), bs) = readRecord bs
      in seqRange start endSeq @ recordSeqs n bs)"

definition namedSeqs :: "byte list \<Rightarrow> u32 list" where
  "namedSeqs d =
     (let bs = NewBitStream d;
          (flag, bs) = orZero (ReadByte bs);
          (count, bs) = orZero (ReadUint16 bs)
      in recordSeqs (unat count) bs)"

definition recoveryPackets :: "(u32 \<rightharpoonup> DataPacket) \<Rightarrow> u32 \<Rightarrow> EncapsulatedPacket list" where
  "recoveryPackets rq seq = (case rq seq of None \<Rightarrow> [] | Some dp \<Rightarrow> Packets dp)"

section \<open>The wire image of a datagram\<close>

text \<open>The bytes \<open>encodePacket\<close> appends for one packet, and the packets that the wire
  format carries whole: a reliability of three bits, a payload whose length in bits fits
  the 16-bit length field, 24-bit indices, and zero in every header field that the
  packet's reliability and split flag leave off the wire.\<close>

definition packetBytes :: "EncapsulatedPacket \<Rightarrow> byte list" where
  "packetBytes packet =
     [if Split packet then push_bit 5 (EncapsulatedPacket.Reliability packet) OR 0x10
      else push_bit 5 (EncapsulatedPacket.Reliability packet)]
     @ BigEndian_PutUint16 (of_nat (length (EncapsulatedPacket.Payload packet) * 8))
     @ (if hasMessageIndex (EncapsulatedPacket.Reliability packet)
        then WriteUint24LE (EncapsulatedPacket.MessageIndex packet) else [])
     @ (if hasSequenceIndex (EncapsulatedPacket.Reliability packet)
        then WriteUint24LE (EncapsulatedPacket.OrderIndex packet) else [])
     @ (if hasOrderIndex (EncapsulatedPacket.Reliability packet)
        then WriteUint24LE (EncapsulatedPacket.OrderIndex packet) @ [EncapsulatedPacket.OrderChannel packet]
        else [])
     @ (if Split packet
        then BigEndian_PutUint32 (SplitCount packet) @ BigEndian_PutUint16 (EncapsulatedPacket.SplitID packet)
             @ BigEndian_PutUint32 (SplitIndex packet)
        else [])
     @ EncapsulatedPacket.Payload packet"

definition canonicalPacket :: "EncapsulatedPacket \<Rightarrow> bool" where
  "canonicalPacket p \<longleftrightarrow>
     EncapsulatedPacket.Reliability p \<le> 7 \<and>
     length (EncapsulatedPacket.Payload p) < 8192 \<and>
     (if hasMessageIndex (EncapsulatedPacket.Reliability p)
      then EncapsulatedPacket.MessageIndex p < 2 ^ 24
      else EncapsulatedPacket.MessageIndex p = 0) \<and>
     (if hasOrderIndex (EncapsulatedPacket.Reliability p)
      then EncapsulatedPacket.OrderIndex p < 2 ^ 24
      else EncapsulatedPacket.OrderIndex p = 0 \<and> EncapsulatedPacket.OrderChannel p = 0) \<and>
     (if Split p then True
      else SplitCount p = 0 \<and> EncapsulatedPacket.SplitID p = 0 \<and> SplitIndex p = 0)"


text \<open>Datagrams used as examples below: the one of the test
  \<open>TestDataPacketEncodeDecode\<close>, one with a sequenced packet, one with a long payload.\<close>

definition seedDatagram :: DataPacket where
  "seedDatagram =
     \<lparr>DataPacket.SequenceNumber = 100,
      Packets = [zeroEncapsulatedPacket
                   \<lparr>EncapsulatedPacket.Reliability := RELIABLE,
                    EncapsulatedPacket.MessageIndex := 50,
                    EncapsulatedPacket.Payload := [0xAA, 0xBB, 0xCC]\<rparr>]\<rparr>"

definition sequencedDatagram :: DataPacket where
  "sequencedDatagram =
     \<lparr>DataPacket.SequenceNumber = 100,
      Packets = [zeroEncapsulatedPacket
                   \<lparr>EncapsulatedPacket.Reliability := UNRELIABLE_SEQUENCED,
                    EncapsulatedPacket.OrderIndex := 5,
                    EncapsulatedPacket.Payload := [0xAA]\<rparr>]\<rparr>"

definition longDatagram :: DataPacket where
  "longDatagram =
     \<lparr>DataPacket.SequenceNumber = 100,
      Packets = [zeroEncapsulatedPacket
                   \<lparr>EncapsulatedPacket.Payload := replicate 8192 0xAA\<rparr>]\<rparr>"

text \<open>Sessions and packets used as examples below.\<close>

definition testAddr :: UDPAddr where
  "testAddr = \<lparr>IP = IPv4 127 0 0 1, Port = 7777\<rparr>"

definition orderedOn :: "byte \<Rightarrow> EncapsulatedPacket" where
  "orderedOn channel =
     zeroEncapsulatedPacket
       \<lparr>EncapsulatedPacket.Reliability := RELIABLE_ORDERED,
        EncapsulatedPacket.OrderChannel := channel,
        EncapsulatedPacket.Payload := [0x42]\<rparr>"

definition strayFragment :: EncapsulatedPacket where
  "strayFragment =
     zeroEncapsulatedPacket
       \<lparr>Split := True, SplitCount := 1, EncapsulatedPacket.SplitID := 0, SplitIndex := 5,
        EncapsulatedPacket.Payload := [0x42]\<rparr>"

definition strayDatagram :: DataPacket where
  "strayDatagram = \<lparr>DataPacket.SequenceNumber = 7, Packets = [strayFragment]\<rparr>"

definition orderedPacket :: "u32 \<Rightarrow> EncapsulatedPacket" where
  "orderedPacket k =
     zeroEncapsulatedPacket
       \<lparr>EncapsulatedPacket.Reliability := RELIABLE_ORDERED,
        EncapsulatedPacket.OrderIndex := k,
        EncapsulatedPacket.Payload := [0x42, 0x07]\<rparr>"

definition firstHalf :: EncapsulatedPacket where
  "firstHalf =
     zeroEncapsulatedPacket
       \<lparr>EncapsulatedPacket.Reliability := RELIABLE_ORDERED,
        Split := True, SplitCount := 2, EncapsulatedPacket.SplitID := 0, SplitIndex := 0,
        EncapsulatedPacket.Payload := [0x42, 0x07]\<rparr>"

definition expecting3 :: Session where
  "expecting3 = (NewSession testAddr 576 0)\<lparr>ChannelOrderIndex := [0 \<mapsto> 3]\<rparr>"

definition halfBuffered :: Session where
  "halfBuffered =
     expecting3\<lparr>ChannelOrderIndex := [0 \<mapsto> 4],
                SplitPackets := [0 \<mapsto> [0 \<mapsto> firstHalf\<lparr>EncapsulatedPacket.OrderIndex := 3\<rparr>]]\<rparr>"

definition secondHalf :: EncapsulatedPacket where
  "secondHalf =
     zeroEncapsulatedPacket
       \<lparr>EncapsulatedPacket.Reliability := RELIABLE_ORDERED,
        EncapsulatedPacket.OrderIndex := 4,
        Split := True, SplitCount := 2, EncapsulatedPacket.SplitID := 0, SplitIndex := 1,
        EncapsulatedPacket.Payload := [0x99]\<rparr>"




definition resendable :: Session where
  "resendable = fst (Update (AddToQueue (NewSession testAddr 576 0) (orderedOn 0)) [] 1)"

text \<open>A session that has sent datagrams 0 and 1 and holds both in its recovery queue, and
  an ACK and a NACK as the README lays them out, each with one record for
  sequence 1: flag byte, record count 1 as 16 bits little-endian, then the record's
  single/range byte, start 1 and end 1.\<close>

definition twoSent :: Session where
  "twoSent = fst (Update (AddToQueue resendable (orderedOn 0)) [] 2)"

definition ackOfOne :: "byte list" where
  "ackOfOne = [0xC0, 0x01, 0x00, 0x01, 0x01, 0x00, 0x00, 0x01, 0x00, 0x00]"

definition nackOfOne :: "byte list" where
  "nackOfOne = [0xA0, 0x01, 0x00, 0x01, 0x01, 0x00, 0x00, 0x01, 0x00, 0x00]"

section \<open>Words and bytes\<close>

lemma le24_roundtrip:
  fixes v :: u32
  assumes "v < 2 ^ 24"
  shows "(ucast (ucast v :: byte) :: u32) OR push_bit 8 (ucast (ucast (drop_bit 8 v) :: byte))
           OR push_bit 16 (ucast (ucast (drop_bit 16 v) :: byte)) = v" (is "?l = v")
proof -
  have m: "v AND mask 24 = v" using assms by (rule less_mask_eq)
  have hi: "\<not> bit v n" if "24 \<le> n" for n
  proof -
    have "bit v n = bit (v AND mask 24) n" by (simp add: m)
    also have "\<dots> = False" using that by (simp add: bit_simps)
    finally show ?thesis by simp
  qed
  show ?thesis
  proof (rule bit_word_eqI)
    fix n assume "n < LENGTH(32)"
    consider "n < 8" | "8 \<le> n" "n < 16" | "16 \<le> n" "n < 24" | "24 \<le> n" by linarith
    then show "bit ?l n = bit v n"
      by cases (auto simp: bit_simps hi)
  qed
qed

lemma be32_roundtrip:
  fixes v :: u32
  shows "(push_bit 24 (ucast (ucast (drop_bit 24 v) :: byte)) :: u32)
      OR push_bit 16 (ucast (ucast (drop_bit 16 v) :: byte))
      OR push_bit 8 (ucast (ucast (drop_bit 8 v) :: byte)) OR ucast (ucast v :: byte) = v"
  (is "?l = v")
proof (rule bit_word_eqI)
  fix n assume "n < LENGTH(32)"
  then consider "n < 8" | "8 \<le> n" "n < 16" | "16 \<le> n" "n < 24" | "24 \<le> n" "n < 32"
    by fastforce
  then show "bit ?l n = bit v n"
    by cases (auto simp: bit_simps)
qed

lemma be16_roundtrip:
  fixes v :: u16
  shows "(push_bit 8 (ucast (ucast (drop_bit 8 v) :: byte)) :: u16) OR ucast (ucast v :: byte) = v"
  by (rule bit_word_eqI) (auto simp: bit_simps)

lemma rel_cases:
  fixes r :: byte
  assumes "r \<le> 7"
  shows "r = 0 \<or> r = 1 \<or> r = 2 \<or> r = 3 \<or> r = 4 \<or> r = 5 \<or> r = 6 \<or> r = 7"
proof -
  have "unat r \<le> 7" using assms by (simp add: word_le_nat_alt)
  then have "unat r = 0 \<or> unat r = 1 \<or> unat r = 2 \<or> unat r = 3 \<or> unat r = 4 \<or> unat r = 5 \<or> unat r = 6 \<or> unat r = 7"
    by arith
  then show ?thesis by (auto simp: word_unat_eq_iff)
qed

lemma flags_rel:
  fixes r :: byte
  assumes "r \<le> 7"
  shows "drop_bit 5 (push_bit 5 r) AND 7 = r" "drop_bit 5 (push_bit 5 r OR 0x10) AND 7 = r"
    "push_bit 5 r AND 0x10 = 0" "(push_bit 5 r OR 0x10) AND 0x10 \<noteq> 0"
  using rel_cases[OF assms] by auto

lemma len_roundtrip:
  assumes "n < 8192"
  shows "unat (((of_nat (n * 8) :: u16) + 7) div 8) = n"
proof -
  have a: "unat (of_nat (n * 8) :: u16) = n * 8" using assms by (subst unat_of_nat) simp
  have b: "unat ((of_nat (n * 8) :: u16) + 7) = n * 8 + 7"
    using assms by (subst unat_word_ariths, subst a) simp
  have "unat (((of_nat (n * 8) :: u16) + 7) div 8) = (n * 8 + 7) div 8"
    by (subst unat_div, subst b) simp
  then show ?thesis by simp
qed



section \<open>Encoding\<close>

lemma data_encodePacket: "data (encodePacket bs p) = data bs @ packetBytes p"
  by (simp add: encodePacket_def packetBytes_def Let_def WriteByte_def WriteBytes_def
      WriteUint16_def WriteUint24_def WriteUint32_def WriteUint24LE_def)

lemma data_foldl_encodePacket:
  "data (foldl encodePacket bs ps) = data bs @ concat (map packetBytes ps)"
  by (induction ps arbitrary: bs) (simp_all add: data_encodePacket)

lemma DataPacket_Encode_bytes:
  "DataPacket_Encode dp =
     0x80 # WriteUint24LE (DataPacket.SequenceNumber dp) @ concat (map packetBytes (Packets dp))"
  by (simp add: DataPacket_Encode_def GetData_def data_foldl_encodePacket WriteUint24_def
      WriteByte_def NewEmptyBitStream_def WriteUint24LE_def)

lemma length_packetBytes: "length (packetBytes p) = GetSize p"
  by (simp add: packetBytes_def GetSize_def BigEndian_PutUint16_def BigEndian_PutUint32_def
      WriteUint24LE_def)


text \<open>Reading at an offset behind which the bytes are known.\<close>

lemma drop_append_step:
  assumes "drop off d = xs @ ys" "off \<le> length d"
  shows "off + length xs \<le> length d" "drop (off + length xs) d = ys"
    "take (length xs) (drop off d) = xs"
proof -
  have "length (drop off d) = length xs + length ys" using assms by simp
  then show "off + length xs \<le> length d" using assms(2) by simp
  have "drop (off + length xs) d = drop (length xs) (drop off d)"
    by (simp add: add.commute)
  then show "drop (off + length xs) d = ys" using assms by simp
  show "take (length xs) (drop off d) = xs" using assms by simp
qed

lemma drop_nth_step:
  assumes "drop off d = xs @ ys" "k < length xs"
  shows "d ! (off + k) = xs ! k"
proof -
  have "length (drop off d) = length xs + length ys" using assms(1) by simp
  then have "off + k < length d" using assms(2) by simp
  then have "d ! (off + k) = drop off d ! k" by simp
  then show ?thesis using assms by (simp add: nth_append)
qed

lemma le24At_step:
  assumes "drop off d = WriteUint24LE v @ ys" "v < 2 ^ 24"
  shows "le24At d off = v"
proof -
  have "d ! (off + 0) = WriteUint24LE v ! 0" "d ! (off + 1) = WriteUint24LE v ! 1"
    "d ! (off + 2) = WriteUint24LE v ! 2"
    using assms(1) by (rule drop_nth_step, simp add: WriteUint24LE_def)+
  then show ?thesis using le24_roundtrip[OF assms(2)]
    by (simp add: le24At_def WriteUint24LE_def)
qed

lemma be32At_step:
  assumes "drop off d = BigEndian_PutUint32 v @ ys"
  shows "be32At d off = v"
proof -
  have "d ! (off + 0) = BigEndian_PutUint32 v ! 0" "d ! (off + 1) = BigEndian_PutUint32 v ! 1"
    "d ! (off + 2) = BigEndian_PutUint32 v ! 2" "d ! (off + 3) = BigEndian_PutUint32 v ! 3"
    using assms(1) by (rule drop_nth_step, simp add: BigEndian_PutUint32_def)+
  then show ?thesis using be32_roundtrip[of v]
    by (simp add: be32At_def BigEndian_PutUint32_def)
qed

lemma be16At_step:
  assumes "drop off d = BigEndian_PutUint16 v @ ys"
  shows "be16At d off = v"
proof -
  have "d ! (off + 0) = BigEndian_PutUint16 v ! 0" "d ! (off + 1) = BigEndian_PutUint16 v ! 1"
    using assms(1) by (rule drop_nth_step, simp add: BigEndian_PutUint16_def)+
  then show ?thesis using be16_roundtrip[of v]
    by (simp add: be16At_def BigEndian_PutUint16_def)
qed


text \<open>C4: the datagram encoder starts every datagram with the flag byte \<open>0x80\<close>, not
  \<open>0x84\<close>; the byte is outside the range \<open>0x84 .. 0x8D\<close>.\<close>

theorem DataPacket_Encode_first_byte:
  "hd (DataPacket_Encode dp) = 0x80 \<and> hd (DataPacket_Encode dp) \<noteq> 0x84 \<and>
   \<not> (0x84 \<le> hd (DataPacket_Encode dp) \<and> hd (DataPacket_Encode dp) \<le> 0x8D)"
  by (simp add: DataPacket_Encode_bytes)

section \<open>Decoding\<close>


lemma length_WriteUint24LE: "length (WriteUint24LE v) = 3"
  by (simp add: WriteUint24LE_def)

lemma length_BigEndian_PutUint16: "length (BigEndian_PutUint16 v) = 2"
  by (simp add: BigEndian_PutUint16_def)

lemma length_BigEndian_PutUint32: "length (BigEndian_PutUint32 v) = 4"
  by (simp add: BigEndian_PutUint32_def)

lemma decMessageIndex_step:
  assumes "drop off d =
      (if hasMessageIndex (EncapsulatedPacket.Reliability q) then WriteUint24LE v else []) @ ys"
    and "off \<le> length d"
    and "hasMessageIndex (EncapsulatedPacket.Reliability q) \<Longrightarrow> v < 2 ^ 24"
  shows "\<exists>off'. decMessageIndex d (q, off) =
      Some (q\<lparr>EncapsulatedPacket.MessageIndex :=
                 (if hasMessageIndex (EncapsulatedPacket.Reliability q) then v
                  else EncapsulatedPacket.MessageIndex q)\<rparr>, off')
      \<and> off' \<le> length d \<and> drop off' d = ys"
proof (cases "hasMessageIndex (EncapsulatedPacket.Reliability q)")
  case True
  then have dr: "drop off d = WriteUint24LE v @ ys" using assms(1) by simp
  have "off + 3 \<le> length d" "drop (off + 3) d = ys"
    using drop_append_step[OF dr assms(2)] unfolding length_WriteUint24LE by blast+
  moreover have "le24At d off = v" using dr assms(3)[OF True] by (rule le24At_step)
  ultimately show ?thesis using True by (simp add: decMessageIndex_def)
next
  case False
  then show ?thesis using assms by (simp add: decMessageIndex_def)
qed

lemma decSequenceIndex_step:
  assumes "drop off d =
      (if hasSequenceIndex (EncapsulatedPacket.Reliability q) then WriteUint24LE v else []) @ ys"
    and "off \<le> length d"
  shows "\<exists>off'. decSequenceIndex d (q, off) = Some (q, off')
      \<and> off' \<le> length d \<and> drop off' d = ys"
proof (cases "hasSequenceIndex (EncapsulatedPacket.Reliability q)")
  case True
  then have dr: "drop off d = WriteUint24LE v @ ys" using assms(1) by simp
  have "off + 3 \<le> length d" "drop (off + 3) d = ys"
    using drop_append_step[OF dr assms(2)] unfolding length_WriteUint24LE by blast+
  then show ?thesis using True by (simp add: decSequenceIndex_def)
next
  case False
  then show ?thesis using assms by (simp add: decSequenceIndex_def)
qed

lemma decOrderIndex_step:
  assumes "drop off d =
      (if hasOrderIndex (EncapsulatedPacket.Reliability q) then WriteUint24LE v @ [c] else []) @ ys"
    and "off \<le> length d"
    and "hasOrderIndex (EncapsulatedPacket.Reliability q) \<Longrightarrow> v < 2 ^ 24"
  shows "\<exists>off'. decOrderIndex d (q, off) =
      Some (q\<lparr>EncapsulatedPacket.OrderIndex :=
                 (if hasOrderIndex (EncapsulatedPacket.Reliability q) then v
                  else EncapsulatedPacket.OrderIndex q),
               EncapsulatedPacket.OrderChannel :=
                 (if hasOrderIndex (EncapsulatedPacket.Reliability q) then c
                  else EncapsulatedPacket.OrderChannel q)\<rparr>, off')
      \<and> off' \<le> length d \<and> drop off' d = ys"
proof (cases "hasOrderIndex (EncapsulatedPacket.Reliability q)")
  case True
  then have dr: "drop off d = (WriteUint24LE v @ [c]) @ ys" using assms(1) by simp
  have l4: "length (WriteUint24LE v @ [c]) = 4" by (simp add: WriteUint24LE_def)
  have "off + 4 \<le> length d" "drop (off + 4) d = ys"
    using drop_append_step[OF dr assms(2)] unfolding l4 by blast+
  moreover have "le24At d off = v"
    using dr assms(3)[OF True] by (intro le24At_step[where ys = "c # ys"]) simp_all
  moreover have "d ! (off + 3) = (WriteUint24LE v @ [c]) ! 3"
    using dr by (rule drop_nth_step) (simp add: WriteUint24LE_def)
  then have "d ! (off + 3) = c" by (simp add: WriteUint24LE_def)
  ultimately show ?thesis using True by (simp add: decOrderIndex_def)
next
  case False
  then show ?thesis using assms by (simp add: decOrderIndex_def)
qed

lemma decSplit_step:
  assumes "drop off d =
      (if Split q then BigEndian_PutUint32 sc @ BigEndian_PutUint16 si @ BigEndian_PutUint32 sx
       else []) @ ys"
    and "off \<le> length d"
  shows "\<exists>off'. decSplit d (q, off) =
      Some (q\<lparr>SplitCount := (if Split q then sc else SplitCount q),
               EncapsulatedPacket.SplitID := (if Split q then si else EncapsulatedPacket.SplitID q),
               SplitIndex := (if Split q then sx else SplitIndex q)\<rparr>, off')
      \<and> off' \<le> length d \<and> drop off' d = ys"
proof (cases "Split q")
  case True
  let ?xs = "BigEndian_PutUint32 sc @ BigEndian_PutUint16 si @ BigEndian_PutUint32 sx"
  have dr: "drop off d = ?xs @ ys" using assms(1) True by simp
  have l10: "length ?xs = 10"
    by (simp add: length_BigEndian_PutUint32 length_BigEndian_PutUint16)
  have a: "off + 10 \<le> length d" "drop (off + 10) d = ys"
    using drop_append_step[OF dr assms(2)] unfolding l10 by blast+
  have dr1: "drop off d = BigEndian_PutUint32 sc @ (BigEndian_PutUint16 si @ BigEndian_PutUint32 sx @ ys)"
    using dr by simp
  have b: "be32At d off = sc" using dr1 by (rule be32At_step)
  have dr2: "drop (off + 4) d = BigEndian_PutUint16 si @ (BigEndian_PutUint32 sx @ ys)"
    using drop_append_step[OF dr1 assms(2)] unfolding length_BigEndian_PutUint32 by blast
  have c: "be16At d (off + 4) = si" using dr2 by (rule be16At_step)
  have "off + 4 \<le> length d" using a by simp
  from drop_append_step[OF dr2 this]
  have "drop (off + 4 + 2) d = BigEndian_PutUint32 sx @ ys"
    unfolding length_BigEndian_PutUint16 by blast
  moreover have "off + 4 + 2 = off + 6" by simp
  ultimately have dr3: "drop (off + 6) d = BigEndian_PutUint32 sx @ ys"
    by (simp only:)
  have e: "be32At d (off + 6) = sx" using dr3 by (rule be32At_step)
  show ?thesis using True a b c e by (simp add: decSplit_def)
next
  case False
  then show ?thesis using assms by (simp add: decSplit_def)
qed

lemma decPayload_step:
  assumes "drop off d = pl @ ys" and "off \<le> length d"
  shows "decPayload d (length pl) (q, off) =
      Some (q\<lparr>EncapsulatedPacket.Payload := pl\<rparr>, off + length pl)
      \<and> off + length pl \<le> length d \<and> drop (off + length pl) d = ys"
  using drop_append_step[OF assms] by (simp add: decPayload_def)


lemma decodePacket_packetBytes:
  assumes can: "canonicalPacket p"
    and dr: "drop off d = packetBytes p @ ys"
    and le: "off \<le> length d"
  shows "decodePacket d off = Some (p, off + GetSize p)
      \<and> off + GetSize p \<le> length d \<and> drop (off + GetSize p) d = ys"
proof -
  let ?r = "EncapsulatedPacket.Reliability p"
  let ?flags = "if Split p then push_bit 5 ?r OR 0x10 else push_bit 5 ?r"
  let ?len = "of_nat (length (EncapsulatedPacket.Payload p) * 8) :: u16"
  let ?A = "if hasMessageIndex ?r then WriteUint24LE (EncapsulatedPacket.MessageIndex p) else []"
  let ?B = "if hasSequenceIndex ?r then WriteUint24LE (EncapsulatedPacket.OrderIndex p) else []"
  let ?C = "if hasOrderIndex ?r
            then WriteUint24LE (EncapsulatedPacket.OrderIndex p) @ [EncapsulatedPacket.OrderChannel p]
            else []"
  let ?D = "if Split p
            then BigEndian_PutUint32 (SplitCount p) @ BigEndian_PutUint16 (EncapsulatedPacket.SplitID p)
                 @ BigEndian_PutUint32 (SplitIndex p)
            else []"
  let ?pl = "EncapsulatedPacket.Payload p"
  have r7: "?r \<le> 7" and plen: "length ?pl < 8192" using can by (simp_all add: canonicalPacket_def)
  have dr0: "drop off d = [?flags] @ (BigEndian_PutUint16 ?len @ ?A @ ?B @ ?C @ ?D @ ?pl @ ys)"
    using dr by (simp add: packetBytes_def)
  have f: "d ! (off + 0) = [?flags] ! 0" using dr0 by (rule drop_nth_step) simp
  then have flags: "d ! off = ?flags" by simp
  have dr1: "drop (off + 1) d = BigEndian_PutUint16 ?len @ (?A @ ?B @ ?C @ ?D @ ?pl @ ys)"
    and le1: "off + 1 \<le> length d"
    using drop_append_step[OF dr0 le] by simp_all
  have len: "be16At d (off + 1) = ?len" using dr1 by (rule be16At_step)
  have "drop (off + 1 + 2) d = ?A @ ?B @ ?C @ ?D @ ?pl @ ys" and "off + 1 + 2 \<le> length d"
    using drop_append_step[OF dr1 le1] unfolding length_BigEndian_PutUint16 by blast+
  moreover have "off + 1 + 2 = off + 3" by simp
  ultimately have dr3: "drop (off + 3) d = ?A @ (?B @ ?C @ ?D @ ?pl @ ys)"
    and le3: "off + 3 \<le> length d"
    by (simp_all only:)
  have lb: "unat ((?len + 7) div 8) = length ?pl" using plen by (rule len_roundtrip)
  define p0 where "p0 = zeroEncapsulatedPacket
       \<lparr>EncapsulatedPacket.Reliability := drop_bit 5 ?flags AND 0x07,
        Split := (?flags AND 0x10 \<noteq> 0)\<rparr>"
  have p0r: "EncapsulatedPacket.Reliability p0 = ?r" and p0s: "Split p0 = Split p"
    using flags_rel[OF r7] by (simp_all add: p0_def)
  have head: "decodePacket d off =
      Option.bind (Option.bind (Option.bind (Option.bind
                (decMessageIndex d (p0, off + 3))
                (decSequenceIndex d)) (decOrderIndex d)) (decSplit d))
                (decPayload d (length ?pl))"
  proof -
    have c: "(length d \<le> off + 1 + 1) = False" using le3 by simp
    have e3: "off + 1 + 2 = off + 3" by simp
    show ?thesis
      unfolding decodePacket_def Let_def flags c if_False len lb e3 p0_def
      by (rule refl)
  qed
  have mi: "hasMessageIndex (EncapsulatedPacket.Reliability p0) \<Longrightarrow>
      EncapsulatedPacket.MessageIndex p < 2 ^ 24"
    using can by (simp add: canonicalPacket_def p0r)
  have oi: "hasOrderIndex (EncapsulatedPacket.Reliability q) \<Longrightarrow>
      EncapsulatedPacket.Reliability q = ?r \<Longrightarrow> EncapsulatedPacket.OrderIndex p < 2 ^ 24" for q
    using can by (simp add: canonicalPacket_def)
  obtain o1 where s1: "decMessageIndex d (p0, off + 3) =
      Some (p0\<lparr>EncapsulatedPacket.MessageIndex :=
                 (if hasMessageIndex ?r then EncapsulatedPacket.MessageIndex p
                  else EncapsulatedPacket.MessageIndex p0)\<rparr>, o1)"
    and le_1: "o1 \<le> length d" and d_1: "drop o1 d = ?B @ (?C @ ?D @ ?pl @ ys)"
    using decMessageIndex_step[of "off + 3" d p0 "EncapsulatedPacket.MessageIndex p", OF _ le3 mi]
      dr3 unfolding p0r by auto
  define p1 where "p1 = p0\<lparr>EncapsulatedPacket.MessageIndex :=
                 (if hasMessageIndex ?r then EncapsulatedPacket.MessageIndex p
                  else EncapsulatedPacket.MessageIndex p0)\<rparr>"
  have p1r: "EncapsulatedPacket.Reliability p1 = ?r" and p1s: "Split p1 = Split p"
    by (simp_all add: p1_def p0r p0s)
  obtain o2 where s2: "decSequenceIndex d (p1, o1) = Some (p1, o2)"
    and le_2: "o2 \<le> length d" and d_2: "drop o2 d = ?C @ (?D @ ?pl @ ys)"
    using decSequenceIndex_step[of o1 d p1 "EncapsulatedPacket.OrderIndex p", OF _ le_1]
      d_1 unfolding p1r by auto
  obtain o3 where s3: "decOrderIndex d (p1, o2) =
      Some (p1\<lparr>EncapsulatedPacket.OrderIndex :=
                 (if hasOrderIndex ?r then EncapsulatedPacket.OrderIndex p
                  else EncapsulatedPacket.OrderIndex p1),
               EncapsulatedPacket.OrderChannel :=
                 (if hasOrderIndex ?r then EncapsulatedPacket.OrderChannel p
                  else EncapsulatedPacket.OrderChannel p1)\<rparr>, o3)"
    and le_3: "o3 \<le> length d" and d_3: "drop o3 d = ?D @ (?pl @ ys)"
    using decOrderIndex_step[of o2 d p1 "EncapsulatedPacket.OrderIndex p"
        "EncapsulatedPacket.OrderChannel p", OF _ le_2 oi[of p1]]
      d_2 unfolding p1r by auto
  define p3 where "p3 = p1\<lparr>EncapsulatedPacket.OrderIndex :=
                 (if hasOrderIndex ?r then EncapsulatedPacket.OrderIndex p
                  else EncapsulatedPacket.OrderIndex p1),
               EncapsulatedPacket.OrderChannel :=
                 (if hasOrderIndex ?r then EncapsulatedPacket.OrderChannel p
                  else EncapsulatedPacket.OrderChannel p1)\<rparr>"
  have p3s: "Split p3 = Split p" by (simp add: p3_def p1s)
  obtain o4 where s4: "decSplit d (p3, o3) =
      Some (p3\<lparr>SplitCount := (if Split p then SplitCount p else SplitCount p3),
               EncapsulatedPacket.SplitID :=
                 (if Split p then EncapsulatedPacket.SplitID p else EncapsulatedPacket.SplitID p3),
               SplitIndex := (if Split p then SplitIndex p else SplitIndex p3)\<rparr>, o4)"
    and le_4: "o4 \<le> length d" and d_4: "drop o4 d = ?pl @ ys"
    using decSplit_step[of o3 d p3 "SplitCount p" "EncapsulatedPacket.SplitID p" "SplitIndex p",
        OF _ le_3] d_3 unfolding p3s by auto
  define p4 where "p4 = p3\<lparr>SplitCount := (if Split p then SplitCount p else SplitCount p3),
               EncapsulatedPacket.SplitID :=
                 (if Split p then EncapsulatedPacket.SplitID p else EncapsulatedPacket.SplitID p3),
               SplitIndex := (if Split p then SplitIndex p else SplitIndex p3)\<rparr>"
  have s5: "decPayload d (length ?pl) (p4, o4) =
      Some (p4\<lparr>EncapsulatedPacket.Payload := ?pl\<rparr>, o4 + length ?pl)"
    and le_5: "o4 + length ?pl \<le> length d" and d_5: "drop (o4 + length ?pl) d = ys"
    using decPayload_step[OF d_4 le_4] by blast+
  have res: "decodePacket d off = Some (p4\<lparr>EncapsulatedPacket.Payload := ?pl\<rparr>, o4 + length ?pl)"
    unfolding head by (simp add: s1 s2 s3 s4 s5 p1_def[symmetric] p3_def[symmetric] p4_def[symmetric])
  have final: "p4\<lparr>EncapsulatedPacket.Payload := ?pl\<rparr> = p"
    using can
    by (intro EncapsulatedPacket.equality)
       (simp_all add: p4_def p3_def p1_def p0_def zeroEncapsulatedPacket_def canonicalPacket_def
          flags_rel[OF r7] split: if_splits)
  have "length (packetBytes p) = GetSize p" by (rule length_packetBytes)
  have tot: "off + length (packetBytes p) \<le> length d"
    "drop (off + length (packetBytes p)) d = ys"
    using drop_append_step[OF dr le] by blast+
  have "o4 + length ?pl \<le> length d" by (rule le_5)
  have "length (drop (o4 + length ?pl) d) = length (drop (off + GetSize p) d)"
    using d_5 tot by (simp add: length_packetBytes)
  then have "o4 + length ?pl = off + GetSize p"
    using le_5 tot(1) by (simp add: length_packetBytes)
  then show ?thesis using res final tot by (simp add: length_packetBytes)
qed


lemma packetBytes_not_Nil: "packetBytes p \<noteq> []"
  by (simp add: packetBytes_def)

lemma decodeLoop_packets:
  assumes "\<forall>p \<in> set ps. canonicalPacket p"
    and "drop off d = concat (map packetBytes ps)" and "off \<le> length d"
  shows "decodeLoop d off acc = acc @ ps"
  using assms
proof (induction ps arbitrary: off acc)
  case Nil
  then have "\<not> off < length d" by simp
  then show ?case by (subst decodeLoop.simps) simp
next
  case (Cons p ps)
  have dr: "drop off d = packetBytes p @ concat (map packetBytes ps)"
    using Cons.prems(2) by simp
  have can: "canonicalPacket p" using Cons.prems(1) by simp
  have lt: "off < length d"
  proof (rule ccontr)
    assume "\<not> off < length d"
    then have "drop off d = []" by simp
    then show False using dr packetBytes_not_Nil by simp
  qed
  from decodePacket_packetBytes[OF can dr Cons.prems(3)]
  have dec: "decodePacket d off = Some (p, off + GetSize p)"
    and le': "off + GetSize p \<le> length d"
    and dr': "drop (off + GetSize p) d = concat (map packetBytes ps)"
    by blast+
  have "decodeLoop d off acc = decodeLoop d (off + GetSize p) (acc @ [p])"
    using lt dec by (subst decodeLoop.simps) simp
  also have "\<dots> = (acc @ [p]) @ ps"
    using Cons.prems(1) dr' le' by (intro Cons.IH) simp_all
  finally show ?case by simp
qed

lemma DecodeDataPacket_Encode_canonical:
  assumes seq: "DataPacket.SequenceNumber d < 2 ^ 24"
    and can: "\<forall>p \<in> set (Packets d). canonicalPacket p"
  shows "DecodeDataPacket (DataPacket_Encode d) = Inr d"
proof -
  let ?body = "concat (map packetBytes (Packets d))"
  let ?bytes = "DataPacket_Encode d"
  have bytes: "?bytes = [0x80] @ (WriteUint24LE (DataPacket.SequenceNumber d) @ ?body)"
    by (simp add: DataPacket_Encode_bytes)
  have len: "\<not> length ?bytes < 4" by (simp add: bytes length_WriteUint24LE)
  have first: "?bytes ! 0 = 0x80" by (simp add: bytes)
  have d1: "drop 1 ?bytes = WriteUint24LE (DataPacket.SequenceNumber d) @ ?body"
    by (simp add: bytes)
  have sq: "le24At ?bytes 1 = DataPacket.SequenceNumber d" using d1 seq by (rule le24At_step)
  have d4: "drop 4 ?bytes = ?body" by (simp add: bytes WriteUint24LE_def)
  have "4 \<le> length ?bytes" using len by simp
  with can d4 have loop: "decodeLoop ?bytes 4 [] = [] @ Packets d" by (rule decodeLoop_packets)
  have sq': "le24At ?bytes (Suc 0) = DataPacket.SequenceNumber d" using sq by simp
  show ?thesis
    unfolding DecodeDataPacket_def using len by (simp add: first sq' loop)
qed

text \<open>C1 (as amended): a datagram with a 24-bit sequence number whose packets are all
  canonical (payload shorter than 8192 bytes, header fields that the tier does not put on
  the wire zero, which includes the order index of the two sequenced tiers, since the
  decoder skips it) decodes from its encoding to itself.\<close>

theorem datagram_roundtrip:
  assumes "DataPacket.SequenceNumber d < 2 ^ 24"
    and "\<forall>p \<in> set (Packets d). canonicalPacket p"
  shows "DecodeDataPacket (DataPacket_Encode d) = Inr d"
  using assms by (rule DecodeDataPacket_Encode_canonical)

lemma decodePacket_advances:
  "decodePacket d off = Some (p, off') \<Longrightarrow> off < off'"
  unfolding decodePacket_def Let_def decMessageIndex_def decSequenceIndex_def decOrderIndex_def
    decSplit_def decPayload_def
  by (auto split: if_splits simp: Option.bind_eq_Some_conv)

lemma decodeLoop_acc: "decodeLoop d off acc = acc @ decodeLoop d off []"
proof (induction "length d - off" arbitrary: off acc rule: less_induct)
  case less
  show ?case
  proof (cases "off < length d")
    case False
    then show ?thesis by (subst decodeLoop.simps, subst (2) decodeLoop.simps) simp
  next
    case lt: True
    show ?thesis
    proof (cases "decodePacket d off")
      case None
      then show ?thesis using lt by (subst decodeLoop.simps, subst (2) decodeLoop.simps) simp
    next
      case (Some r)
      obtain packet off' where r: "r = (packet, off')" by (cases r)
      have "off < off'" using Some r by (simp add: decodePacket_advances)
      then have m: "length d - off' < length d - off" using lt by simp
      have "decodeLoop d off acc = decodeLoop d off' (acc @ [packet])"
        using lt Some r by (subst decodeLoop.simps) simp
      also have "\<dots> = (acc @ [packet]) @ decodeLoop d off' []"
        by (rule less[OF m])
      also have "\<dots> = acc @ ([packet] @ decodeLoop d off' [])" by simp
      also have "[packet] @ decodeLoop d off' [] = decodeLoop d off' [packet]"
        by (rule less[OF m, symmetric])
      also have "decodeLoop d off' [packet] = decodeLoop d off []"
        using lt Some r by (subst (2) decodeLoop.simps) simp
      finally show ?thesis .
    qed
  qed
qed


text \<open>The datagram of the repository's test \<open>TestDataPacketEncodeDecode\<close>: sequence
  100, one Reliable packet with message index 50 and payload \<open>AA BB CC\<close>.\<close>

theorem datagram_roundtrip_witness:
  "DataPacket.SequenceNumber seedDatagram < 2 ^ 24 \<and>
   list_all canonicalPacket (Packets seedDatagram) \<and>
   DataPacket_Encode seedDatagram =
     [0x80, 0x64, 0x00, 0x00, 0x40, 0x00, 0x18, 0x32, 0x00, 0x00, 0xAA, 0xBB, 0xCC] \<and>
   DecodeDataPacket (DataPacket_Encode seedDatagram) = Inr seedDatagram"
proof -
  have h1: "DataPacket.SequenceNumber seedDatagram < 2 ^ 24"
    by (simp add: seedDatagram_def)
  have h2: "\<forall>p \<in> set (Packets seedDatagram). canonicalPacket p"
    by (simp add: seedDatagram_def canonicalPacket_def zeroEncapsulatedPacket_def
        hasMessageIndex_def hasOrderIndex_def reliability_defs)
  have h3: "DataPacket_Encode seedDatagram =
     [0x80, 0x64, 0x00, 0x00, 0x40, 0x00, 0x18, 0x32, 0x00, 0x00, 0xAA, 0xBB, 0xCC]"
    by (simp add: DataPacket_Encode_bytes seedDatagram_def packetBytes_def
        zeroEncapsulatedPacket_def hasMessageIndex_def hasOrderIndex_def hasSequenceIndex_def
        reliability_defs WriteUint24LE_def BigEndian_PutUint16_def)
  have h2': "list_all canonicalPacket (Packets seedDatagram)"
    using h2 by (simp add: list_all_iff)
  from datagram_roundtrip[OF h1 h2] h1 h2' h3 show ?thesis by (intro conjI)
qed

text \<open>Two datagrams that do not come back: an UnreliableSequenced packet with order
  index 5 is decoded with order index 0, and a payload of 8192 bytes, whose length in
  bits is 0 in 16 bits, is decoded as an empty packet followed by whatever the payload
  bytes parse to.\<close>

lemma sequenced_decoded:
  "DecodeDataPacket (DataPacket_Encode sequencedDatagram) =
     Inr \<lparr>DataPacket.SequenceNumber = 100,
          Packets = [zeroEncapsulatedPacket
                       \<lparr>EncapsulatedPacket.Reliability := UNRELIABLE_SEQUENCED,
                        EncapsulatedPacket.Payload := [0xAA]\<rparr>]\<rparr>"
proof -
  have b: "DataPacket_Encode sequencedDatagram = [0x80, 0x64, 0, 0, 0x20, 0, 8, 5, 0, 0, 0xAA]"
    by (simp add: DataPacket_Encode_bytes sequencedDatagram_def packetBytes_def
        zeroEncapsulatedPacket_def hasMessageIndex_def hasOrderIndex_def hasSequenceIndex_def
        reliability_defs WriteUint24LE_def BigEndian_PutUint16_def)
  have p: "decodePacket [0x80, 0x64, 0, 0, 0x20, 0, 8, 5, 0, 0, 0xAA] 4 =
      Some (zeroEncapsulatedPacket
                       \<lparr>EncapsulatedPacket.Reliability := UNRELIABLE_SEQUENCED,
                        EncapsulatedPacket.Payload := [0xAA]\<rparr>, 11)"
    by (simp add: decodePacket_def Let_def be16At_def decMessageIndex_def decSequenceIndex_def
        decOrderIndex_def decSplit_def decPayload_def zeroEncapsulatedPacket_def
        hasMessageIndex_def hasOrderIndex_def hasSequenceIndex_def reliability_defs)
  have l: "decodeLoop [0x80, 0x64, 0, 0, 0x20, 0, 8, 5, 0, 0, 0xAA] 4 [] =
      [zeroEncapsulatedPacket
                       \<lparr>EncapsulatedPacket.Reliability := UNRELIABLE_SEQUENCED,
                        EncapsulatedPacket.Payload := [0xAA]\<rparr>]"
    by (subst decodeLoop.simps, simp add: p, subst decodeLoop.simps, simp)
  show ?thesis unfolding b DecodeDataPacket_def by (simp add: l le24At_def)
qed

lemma long_decoded:
  "\<exists>rest. DecodeDataPacket (DataPacket_Encode longDatagram) =
     Inr \<lparr>DataPacket.SequenceNumber = 100, Packets = zeroEncapsulatedPacket # rest\<rparr>"
proof -
  define bytes where "bytes = [0x80, 0x64, 0, 0, 0, 0, 0] @ replicate 8192 (0xAA :: byte)"
  have b: "DataPacket_Encode longDatagram = bytes"
    by (simp add: DataPacket_Encode_bytes longDatagram_def packetBytes_def bytes_def
        zeroEncapsulatedPacket_def hasMessageIndex_def hasOrderIndex_def hasSequenceIndex_def
        reliability_defs WriteUint24LE_def BigEndian_PutUint16_def)
  have len: "length bytes = 8199" by (simp add: bytes_def)
  have p: "decodePacket bytes 4 = Some (zeroEncapsulatedPacket, 7)"
    unfolding bytes_def
    by (simp add: decodePacket_def Let_def be16At_def decMessageIndex_def decSequenceIndex_def
        decOrderIndex_def decSplit_def decPayload_def zeroEncapsulatedPacket_def
        hasMessageIndex_def hasOrderIndex_def hasSequenceIndex_def reliability_defs)
  have "decodeLoop bytes 4 [] = decodeLoop bytes 7 [zeroEncapsulatedPacket]"
    by (subst decodeLoop.simps) (simp add: p len)
  also have "\<dots> = zeroEncapsulatedPacket # decodeLoop bytes 7 []"
    by (subst decodeLoop_acc) simp
  finally have l: "decodeLoop bytes 4 [] = zeroEncapsulatedPacket # decodeLoop bytes 7 []" .
  have s: "le24At bytes 1 = 100" "bytes ! 0 = 0x80"
    by (simp_all add: le24At_def bytes_def)
  show ?thesis unfolding b DecodeDataPacket_def using s by (simp add: l len)
qed

text \<open>C1 as stated fails on both.\<close>

theorem datagram_roundtrip_counterexample:
  "DecodeDataPacket (DataPacket_Encode sequencedDatagram) \<noteq> Inr sequencedDatagram \<and>
   DecodeDataPacket (DataPacket_Encode longDatagram) \<noteq> Inr longDatagram"
proof
  show "DecodeDataPacket (DataPacket_Encode sequencedDatagram) \<noteq> Inr sequencedDatagram"
    unfolding sequenced_decoded by (simp add: sequencedDatagram_def zeroEncapsulatedPacket_def)
  obtain rest where "DecodeDataPacket (DataPacket_Encode longDatagram) =
     Inr \<lparr>DataPacket.SequenceNumber = 100, Packets = zeroEncapsulatedPacket # rest\<rparr>"
    using long_decoded by blast
  moreover have "replicate 8192 (0xAA :: byte) \<noteq> []" by simp
  ultimately show "DecodeDataPacket (DataPacket_Encode longDatagram) \<noteq> Inr longDatagram"
    by (simp add: longDatagram_def zeroEncapsulatedPacket_def)
qed

section \<open>ACK encoders\<close>

lemma foldl_appendSeq: "foldl appendSeq buf xs = buf @ concat (map WriteUint24LE xs)"
  by (induction xs arbitrary: buf) (simp_all add: appendSeq_def WriteUint24LE_def)

lemma foldl_EncodeACK_record:
  "foldl (\<lambda>buf seq. buf @ 0x01 # WriteUint24LE seq) buf xs =
     buf @ concat (map (\<lambda>s. 0x01 # WriteUint24LE s) xs)"
  by (induction xs arbitrary: buf) simp_all

text \<open>C3 (as amended): \<open>ACK.Encode\<close> of package protocol gives the flag byte \<open>0xC0\<close>,
  the record count as 16 bits little-endian and three little-endian bytes for each
  sequence, so six bytes \<open>C0 01 00 lo mid hi\<close> for one sequence and \<open>C0 00 00\<close> for
  none. \<open>EncodeACK\<close> of package raknet has the same header and puts the record-type byte
  \<open>01\<close> before each sequence.\<close>

theorem ACK_encoders_format:
  "ACK_Encode seqs =
     [0xC0, ucast (of_nat (length seqs) :: u16), ucast (drop_bit 8 (of_nat (length seqs) :: u16))]
     @ concat (map WriteUint24LE seqs) \<and>
   ACK_Encode [s] = [0xC0, 0x01, 0x00, ucast s, ucast (drop_bit 8 s), ucast (drop_bit 16 s)] \<and>
   ACK_Encode [] = [0xC0, 0x00, 0x00] \<and>
   EncodeACK seqs =
     [0xC0, ucast (of_nat (length seqs) :: u16), ucast (drop_bit 8 (of_nat (length seqs) :: u16))]
     @ concat (map (\<lambda>s. 0x01 # WriteUint24LE s) seqs)"
proof -
  have general: "ACK_Encode seqs =
     [0xC0, ucast (of_nat (length seqs) :: u16), ucast (drop_bit 8 (of_nat (length seqs) :: u16))]
     @ concat (map WriteUint24LE seqs)"
    by (simp add: ACK_Encode_def Let_def foldl_appendSeq)
  have single: "ACK_Encode [s] =
     [0xC0, 0x01, 0x00, ucast s, ucast (drop_bit 8 s), ucast (drop_bit 16 s)]"
    by (simp add: ACK_Encode_def appendSeq_def)
  have none: "ACK_Encode [] = [0xC0, 0x00, 0x00]"
    by (simp add: ACK_Encode_def)
  have other: "EncodeACK seqs =
     [0xC0, ucast (of_nat (length seqs) :: u16), ucast (drop_bit 8 (of_nat (length seqs) :: u16))]
     @ concat (map (\<lambda>s. 0x01 # WriteUint24LE s) seqs)"
    by (simp add: EncodeACK_def ID_ACK_def Let_def foldl_EncodeACK_record)
  from general single none other show ?thesis by (intro conjI)
qed

text \<open>C3 as stated fails for \<open>EncodeACK\<close>: one sequence gives seven bytes.\<close>

theorem EncodeACK_singleton_counterexample:
  "EncodeACK [0x123456] = [0xC0, 0x01, 0x00, 0x01, 0x56, 0x34, 0x12] \<and>
   EncodeACK [0x123456] \<noteq> [0xC0, 0x01, 0x00, 0x56, 0x34, 0x12]"
  by (simp add: EncodeACK_def ID_ACK_def WriteUint24LE_def)

section \<open>Addresses\<close>

lemma WriteAddress_bytes:
  "GetData (WriteAddress NewEmptyBitStream \<lparr>IP = IPv4 a b c d, Port = uint p\<rparr>) =
     [4, NOT a, NOT b, NOT c, NOT d, ucast (p :: u16), ucast (drop_bit 8 p)]"
proof -
  have ff: "(0xFF :: u16) = mask 8" by (simp add: mask_eq_exp_minus_1)
  have m: "(ucast (p AND 0xFF) :: byte) = ucast p"
    "(ucast (drop_bit 8 p AND 0xFF) :: byte) = ucast (drop_bit 8 p)"
    unfolding ff by (rule bit_word_eqI, auto simp: bit_simps)+
  have l: "[0..<4] = [0, 1, 2, 3]" by (simp add: upt_rec)
  show ?thesis
    by (simp add: WriteAddress_def To4_def IPv4_def v4InV6Prefix_def GetData_def Let_def
        WriteByte_def NewEmptyBitStream_def l m)
qed

lemma ReadAddress_bytes:
  "fst (ReadAddress (NewBitStream [4, NOT a, NOT b, NOT c, NOT d, lo, hi])) =
     Inr \<lparr>IP = IPv4 a b c d, Port = uint (BigEndian_Uint16 [lo, hi])\<rparr>"
  by (simp add: ReadAddress_def ReadByte_def ReadBytes_def ReadUint16_def NewBitStream_def Let_def)

text \<open>C2, at the address of the repository's own test \<open>TestAddressWriteRead\<close>,
  \<open>192.168.1.100:7777\<close>: the encoder writes \<open>04 3F 57 FE 9B 61 1E\<close>, the port
  little-endian, and \<open>ReadAddress\<close> reads the port back big-endian, as 24862.\<close>

theorem ReadAddress_WriteAddress_port:
  "GetData (WriteAddress NewEmptyBitStream \<lparr>IP = IPv4 192 168 1 100, Port = 7777\<rparr>) =
     [0x04, 0x3F, 0x57, 0xFE, 0x9B, 0x61, 0x1E] \<and>
   fst (ReadAddress (NewBitStream
     (GetData (WriteAddress NewEmptyBitStream \<lparr>IP = IPv4 192 168 1 100, Port = 7777\<rparr>)))) =
     Inr \<lparr>IP = IPv4 192 168 1 100, Port = 24862\<rparr>"
proof -
  have l: "[0..<4] = [0, 1, 2, 3]" by (simp add: upt_rec)
  have w: "GetData (WriteAddress NewEmptyBitStream \<lparr>IP = IPv4 192 168 1 100, Port = 7777\<rparr>) =
     [0x04, 0x3F, 0x57, 0xFE, 0x9B, 0x61, 0x1E]"
    by (simp add: WriteAddress_def To4_def IPv4_def v4InV6Prefix_def GetData_def Let_def
        WriteByte_def NewEmptyBitStream_def l)
  show ?thesis
    unfolding w
    by (simp add: ReadAddress_def ReadByte_def ReadBytes_def ReadUint16_def NewBitStream_def
        BigEndian_Uint16_def IPv4_def Let_def)
qed

section \<open>Sessions\<close>

lemma ACKQueue_deliverEncap: "ACKQueue (fst (deliverEncap s packets encap)) = ACKQueue s"
  by (simp add: deliverEncap_def Let_def split: option.splits)

lemma ACKQueue_handleEncap: "ACKQueue (fst (handleEncap s packets encap)) = ACKQueue s"
  by (simp add: handleEncap_def Let_def ACKQueue_deliverEncap)

lemma ACKQueue_handleEncaps: "ACKQueue (fst (handleEncaps s packets encaps)) = ACKQueue s"
proof (induction encaps arbitrary: s packets)
  case Nil
  then show ?case by simp
next
  case (Cons encap rest)
  obtain s' r where h: "handleEncap s packets encap = (s', r)" by (cases "handleEncap s packets encap")
  have a: "ACKQueue s' = ACKQueue s" using ACKQueue_handleEncap[of s packets encap] h by simp
  show ?case
  proof (cases r)
    case (Returned packets')
    then show ?thesis using h a Cons.IH[of s' packets'] by simp
  next
    case Panicked
    then show ?thesis using h a by simp
  qed
qed

lemma ChannelOrderIndex_deliverEncap:
  "ChannelOrderIndex (fst (deliverEncap s packets encap)) = ChannelOrderIndex s"
  by (simp add: deliverEncap_def Let_def split: option.splits)

text \<open>C5: whatever the session and the datagram, and whether the call returns or
  panics, \<open>HandleDataPacket\<close> leaves the ACK set with the datagram's sequence number
  added when the datagram has at least one encapsulated packet, and unchanged when it has
  none.\<close>

theorem HandleDataPacket_ACKQueue:
  "ACKQueue (fst (HandleDataPacket s dp now)) =
     (if Packets dp = [] then ACKQueue s
      else insert (DataPacket.SequenceNumber dp) (ACKQueue s))"
  by (simp add: HandleDataPacket_def Let_def ACKQueue_handleEncaps)

text \<open>The test datagram is acknowledged, an empty datagram with the same sequence
  number is not.\<close>

theorem HandleDataPacket_ACKQueue_witness:
  "ACKQueue (fst (HandleDataPacket (NewSession testAddr 576 0) seedDatagram 1)) = {100} \<and>
   ACKQueue (fst (HandleDataPacket (NewSession testAddr 576 0)
                    \<lparr>DataPacket.SequenceNumber = 100, Packets = []\<rparr> 1)) = {}"
  using HandleDataPacket_ACKQueue[of "NewSession testAddr 576 0" seedDatagram 1]
    HandleDataPacket_ACKQueue[of "NewSession testAddr 576 0"
      "\<lparr>DataPacket.SequenceNumber = 100, Packets = []\<rparr>" 1]
  by (simp add: seedDatagram_def NewSession_def)

text \<open>The reassembly loop over a group in which the indices \<open>0 .. n - 1\<close> are all
  present gives the payloads of their fragments, one after the other.\<close>

lemma foldl_fragments:
  assumes "map frags ks = map Some fs"
  shows "foldl (\<lambda>buffer i.
              case buffer of
                None \<Rightarrow> None
              | Some b \<Rightarrow> (case frags i of
                            None \<Rightarrow> None
                          | Some frag \<Rightarrow> Some (b @ EncapsulatedPacket.Payload frag)))
           (Some acc) ks =
         Some (acc @ concat (map EncapsulatedPacket.Payload fs))"
  using assms
proof (induction ks arbitrary: fs acc)
  case Nil
  then show ?case by simp
next
  case (Cons k ks)
  then obtain f fs' where fs: "fs = f # fs'" and k: "frags k = Some f"
    and rest: "map frags ks = map Some fs'"
    by (cases fs) auto
  show ?case using Cons.IH[OF rest, of "acc @ EncapsulatedPacket.Payload f"]
    by (simp add: fs k)
qed

lemma concatFragments_present:
  assumes "map (\<lambda>i. frags (of_nat i)) [0..<unat n] = map Some fs"
  shows "concatFragments frags n = Some (concat (map EncapsulatedPacket.Payload fs))"
proof -
  have "map frags (map of_nat [0..<unat n]) = map Some fs"
    using assms by (simp add: comp_def)
  from foldl_fragments[OF this, of "[]"] show ?thesis
    by (simp add: concatFragments_def)
qed

text \<open>C6 (as amended): the loop body of \<open>HandleDataPacket\<close> on a ReliableOrdered packet
  (the code takes \<open>RELIABLE_ORDERED_WITH_ACK\<close> the same way), with \<open>ex\<close> the index
  expected on the packet's channel. Below \<open>ex\<close> the \<open>continue\<close> leaves the session and
  the packets delivered so far as they are. At \<open>ex\<close> the channel's expected index
  becomes \<open>ex + 1\<close> and no other channel's changes; above \<open>ex\<close> no expected index
  changes. In both of these cases a packet that is not split is delivered when it has a
  payload, as the packet whose id is the first payload byte and whose payload is the rest,
  and the session changes in nothing else (an empty payload delivers nothing); a split
  packet is not delivered itself but stored in the split buffer under its split id and
  index: while the group's fragment count differs from \<open>SplitCount\<close> nothing is
  delivered, and when the count is \<open>SplitCount\<close> and the fragments \<open>fs\<close> of the indices
  \<open>0 .. SplitCount - 1\<close> are all there, the group is erased and their payloads, one
  after the other, are delivered as one packet.\<close>

theorem handleEncap_ordered:
  assumes rel: "EncapsulatedPacket.Reliability encap = RELIABLE_ORDERED \<or>
           EncapsulatedPacket.Reliability encap = RELIABLE_ORDERED_WITH_ACK"
    and ch: "ch = EncapsulatedPacket.OrderChannel encap"
    and ex: "ex = expectedOrder s ch"
    and s': "s' = (if EncapsulatedPacket.OrderIndex encap = ex
                   then s\<lparr>ChannelOrderIndex := (ChannelOrderIndex s)(ch \<mapsto> ex + 1)\<rparr>
                   else s)"
    and frags: "frags =
       (case SplitPackets s (EncapsulatedPacket.SplitID encap) of
          None \<Rightarrow> Map.empty | Some g \<Rightarrow> g)(SplitIndex encap \<mapsto> encap)"
  shows "(EncapsulatedPacket.OrderIndex encap < ex \<longrightarrow>
            handleEncap s packets encap = (s, Returned packets)) \<and>
         (EncapsulatedPacket.OrderIndex encap = ex \<longrightarrow>
            expectedOrder (fst (handleEncap s packets encap)) ch = ex + 1 \<and>
            (\<forall>c. c \<noteq> ch \<longrightarrow>
               ChannelOrderIndex (fst (handleEncap s packets encap)) c = ChannelOrderIndex s c)) \<and>
         (ex < EncapsulatedPacket.OrderIndex encap \<longrightarrow>
            ChannelOrderIndex (fst (handleEncap s packets encap)) = ChannelOrderIndex s) \<and>
         (ex \<le> EncapsulatedPacket.OrderIndex encap \<and> \<not> Split encap \<longrightarrow>
            handleEncap s packets encap =
              (s', Returned
                     (case EncapsulatedPacket.Payload encap of
                        [] \<Rightarrow> packets
                      | b # rest \<Rightarrow>
                          packets @ [\<lparr>PacketID = b, Reliability = 0, MessageIndex = 0,
                                      OrderIndex = 0, OrderChannel = 0, Payload = rest\<rparr>]))) \<and>
         (ex \<le> EncapsulatedPacket.OrderIndex encap \<and> Split encap \<and>
          (of_nat (card (dom frags)) :: u32) \<noteq> SplitCount encap \<longrightarrow>
            handleEncap s packets encap =
              (s'\<lparr>SplitPackets := (SplitPackets s)(EncapsulatedPacket.SplitID encap \<mapsto> frags)\<rparr>,
               Returned packets)) \<and>
         (ex \<le> EncapsulatedPacket.OrderIndex encap \<and> Split encap \<and>
          (of_nat (card (dom frags)) :: u32) = SplitCount encap \<and>
          map (\<lambda>i. frags (of_nat i)) [0..<unat (SplitCount encap)] = map Some fs \<longrightarrow>
            handleEncap s packets encap =
              (s'\<lparr>SplitPackets := (SplitPackets s)(EncapsulatedPacket.SplitID encap := None)\<rparr>,
               Returned
                 (case concat (map EncapsulatedPacket.Payload fs) of
                    [] \<Rightarrow> packets
                  | b # rest \<Rightarrow>
                      packets @ [\<lparr>PacketID = b, Reliability = 0, MessageIndex = 0,
                                  OrderIndex = 0, OrderChannel = 0, Payload = rest\<rparr>])))"
proof -
  have h: "hasOrderIndex (EncapsulatedPacket.Reliability encap)"
    using rel by (simp add: hasOrderIndex_def)
  have c: "ChannelOrderIndex (fst (deliverEncap t packets encap)) = ChannelOrderIndex t" for t
    by (rule ChannelOrderIndex_deliverEncap)
  have go: "ex \<le> EncapsulatedPacket.OrderIndex encap \<Longrightarrow>
      handleEncap s packets encap = deliverEncap s' packets encap"
    using h by (auto simp: handleEncap_def Let_def s' ex ch)
  have dup: "EncapsulatedPacket.OrderIndex encap < ex \<longrightarrow>
      handleEncap s packets encap = (s, Returned packets)"
    using h by (simp add: handleEncap_def Let_def ex ch)
  have coi: "ex \<le> EncapsulatedPacket.OrderIndex encap \<Longrightarrow>
      ChannelOrderIndex (fst (handleEncap s packets encap)) = ChannelOrderIndex s'"
    by (simp add: go c)
  have inorder: "EncapsulatedPacket.OrderIndex encap = ex \<longrightarrow>
      expectedOrder (fst (handleEncap s packets encap)) ch = ex + 1 \<and>
      (\<forall>c. c \<noteq> ch \<longrightarrow>
         ChannelOrderIndex (fst (handleEncap s packets encap)) c = ChannelOrderIndex s c)"
    using coi by (simp add: expectedOrder_def s')
  have later: "ex < EncapsulatedPacket.OrderIndex encap \<longrightarrow>
      ChannelOrderIndex (fst (handleEncap s packets encap)) = ChannelOrderIndex s"
    using coi by (auto simp: s')
  have sp: "SplitPackets s' = SplitPackets s" by (simp add: s')
  have deliver_bytes:
    "(if b \<noteq> [] then packets @ [toRakNetPacket b] else packets) =
     (case b of
        [] \<Rightarrow> packets
      | x # rest \<Rightarrow>
          packets @ [\<lparr>PacketID = x, Reliability = 0, MessageIndex = 0,
                      OrderIndex = 0, OrderChannel = 0, Payload = rest\<rparr>])" for b
    by (cases b) (simp_all add: toRakNetPacket_def)
  have plain: "ex \<le> EncapsulatedPacket.OrderIndex encap \<and> \<not> Split encap \<longrightarrow>
      handleEncap s packets encap =
        (s', Returned
               (case EncapsulatedPacket.Payload encap of
                  [] \<Rightarrow> packets
                | b # rest \<Rightarrow>
                    packets @ [\<lparr>PacketID = b, Reliability = 0, MessageIndex = 0,
                                OrderIndex = 0, OrderChannel = 0, Payload = rest\<rparr>]))"
    using go by (simp add: deliverEncap_def deliver_bytes)
  have split: "ex \<le> EncapsulatedPacket.OrderIndex encap \<and> Split encap \<and>
      (of_nat (card (dom frags)) :: u32) \<noteq> SplitCount encap \<longrightarrow>
      handleEncap s packets encap =
        (s'\<lparr>SplitPackets := (SplitPackets s)(EncapsulatedPacket.SplitID encap \<mapsto> frags)\<rparr>,
         Returned packets)"
    using go by (simp add: deliverEncap_def Let_def sp frags)
  have whole: "ex \<le> EncapsulatedPacket.OrderIndex encap \<and> Split encap \<and>
      (of_nat (card (dom frags)) :: u32) = SplitCount encap \<and>
      map (\<lambda>i. frags (of_nat i)) [0..<unat (SplitCount encap)] = map Some fs \<longrightarrow>
      handleEncap s packets encap =
        (s'\<lparr>SplitPackets := (SplitPackets s)(EncapsulatedPacket.SplitID encap := None)\<rparr>,
         Returned
           (case concat (map EncapsulatedPacket.Payload fs) of
              [] \<Rightarrow> packets
            | b # rest \<Rightarrow>
                packets @ [\<lparr>PacketID = b, Reliability = 0, MessageIndex = 0,
                            OrderIndex = 0, OrderChannel = 0, Payload = rest\<rparr>]))"
  proof (intro impI, elim conjE)
    assume le: "ex \<le> EncapsulatedPacket.OrderIndex encap" and sl: "Split encap"
      and cnt: "(of_nat (card (dom frags)) :: u32) = SplitCount encap"
      and all: "map (\<lambda>i. frags (of_nat i)) [0..<unat (SplitCount encap)] = map Some fs"
    define buf where "buf = concat (map EncapsulatedPacket.Payload fs)"
    have cf: "concatFragments frags (SplitCount encap) = Some buf"
      unfolding buf_def using all by (rule concatFragments_present)
    have "deliverEncap s' packets encap =
        (s'\<lparr>SplitPackets := (SplitPackets s)(EncapsulatedPacket.SplitID encap := None)\<rparr>,
         Returned
           (case buf of
              [] \<Rightarrow> packets
            | b # rest \<Rightarrow>
                packets @ [\<lparr>PacketID = b, Reliability = 0, MessageIndex = 0,
                            OrderIndex = 0, OrderChannel = 0, Payload = rest\<rparr>]))"
      using sl cnt[unfolded frags] cf[unfolded frags]
      by (simp add: deliverEncap_def Let_def sp deliver_bytes)
    then have "handleEncap s packets encap =
        (s'\<lparr>SplitPackets := (SplitPackets s)(EncapsulatedPacket.SplitID encap := None)\<rparr>,
         Returned
           (case buf of
              [] \<Rightarrow> packets
            | b # rest \<Rightarrow>
                packets @ [\<lparr>PacketID = b, Reliability = 0, MessageIndex = 0,
                            OrderIndex = 0, OrderChannel = 0, Payload = rest\<rparr>]))"
      using go[OF le] by simp
    then show "handleEncap s packets encap =
        (s'\<lparr>SplitPackets := (SplitPackets s)(EncapsulatedPacket.SplitID encap := None)\<rparr>,
         Returned
           (case concat (map EncapsulatedPacket.Payload fs) of
              [] \<Rightarrow> packets
            | b # rest \<Rightarrow>
                packets @ [\<lparr>PacketID = b, Reliability = 0, MessageIndex = 0,
                            OrderIndex = 0, OrderChannel = 0, Payload = rest\<rparr>]))"
      unfolding buf_def .
  qed
  from dup inorder later plain split whole show ?thesis by (intro conjI)
qed

text \<open>A session expecting index 3 on channel 0 receives an unsplit packet with payload
  \<open>42 07\<close> at index 2 (dropped), 3 (delivered as packet \<open>42\<close> with payload \<open>07\<close>, now
  expecting 4) and 4 (delivered, still expecting 3), and the first fragment of a group of
  two at index 3 (stored, nothing delivered, now expecting 4). With that fragment stored
  and index 4 expected, the second fragment, payload \<open>99\<close>, arrives at index 4: the group
  is erased and packet \<open>42\<close> with payload \<open>07 99\<close> is delivered.\<close>

theorem handleEncap_ordered_witness:
  "handleEncap expecting3 [] (orderedPacket 2) = (expecting3, Returned []) \<and>
   handleEncap expecting3 [] (orderedPacket 3) =
     (expecting3\<lparr>ChannelOrderIndex := [0 \<mapsto> 4]\<rparr>,
      Returned [\<lparr>PacketID = 0x42, Reliability = 0, MessageIndex = 0, OrderIndex = 0,
                 OrderChannel = 0, Payload = [0x07]\<rparr>]) \<and>
   handleEncap expecting3 [] (orderedPacket 4) =
     (expecting3,
      Returned [\<lparr>PacketID = 0x42, Reliability = 0, MessageIndex = 0, OrderIndex = 0,
                 OrderChannel = 0, Payload = [0x07]\<rparr>]) \<and>
   handleEncap expecting3 [] (firstHalf\<lparr>EncapsulatedPacket.OrderIndex := 3\<rparr>) =
     (halfBuffered, Returned []) \<and>
   handleEncap halfBuffered [] secondHalf =
     (halfBuffered\<lparr>ChannelOrderIndex := [0 \<mapsto> 5], SplitPackets := Map.empty\<rparr>,
      Returned [\<lparr>PacketID = 0x42, Reliability = 0, MessageIndex = 0, OrderIndex = 0,
                 OrderChannel = 0, Payload = [0x07, 0x99]\<rparr>])"
proof -
  have r: "EncapsulatedPacket.Reliability (orderedPacket k) = RELIABLE_ORDERED \<or>
           EncapsulatedPacket.Reliability (orderedPacket k) = RELIABLE_ORDERED_WITH_ACK" for k
    by (simp add: orderedPacket_def)
  have f: "EncapsulatedPacket.OrderChannel (orderedPacket k) = 0"
    "EncapsulatedPacket.OrderIndex (orderedPacket k) = k"
    "\<not> Split (orderedPacket k)"
    "EncapsulatedPacket.Payload (orderedPacket k) = [0x42, 0x07]" for k
    by (simp_all add: orderedPacket_def zeroEncapsulatedPacket_def)
  let ?h = "firstHalf\<lparr>EncapsulatedPacket.OrderIndex := 3\<rparr>"
  have rh: "EncapsulatedPacket.Reliability ?h = RELIABLE_ORDERED \<or>
            EncapsulatedPacket.Reliability ?h = RELIABLE_ORDERED_WITH_ACK"
    by (simp add: firstHalf_def)
  have fh: "EncapsulatedPacket.OrderChannel ?h = 0" "EncapsulatedPacket.OrderIndex ?h = 3"
    "Split ?h" "SplitCount ?h = 2" "EncapsulatedPacket.SplitID ?h = 0" "SplitIndex ?h = 0"
    "EncapsulatedPacket.Payload ?h = [0x42, 0x07]"
    by (simp_all add: firstHalf_def zeroEncapsulatedPacket_def)
  have rs: "EncapsulatedPacket.Reliability secondHalf = RELIABLE_ORDERED \<or>
            EncapsulatedPacket.Reliability secondHalf = RELIABLE_ORDERED_WITH_ACK"
    by (simp add: secondHalf_def)
  have fs: "EncapsulatedPacket.OrderChannel secondHalf = 0"
    "EncapsulatedPacket.OrderIndex secondHalf = 4"
    "Split secondHalf" "SplitCount secondHalf = 2" "EncapsulatedPacket.SplitID secondHalf = 0"
    "SplitIndex secondHalf = 1" "EncapsulatedPacket.Payload secondHalf = [0x99]"
    by (simp_all add: secondHalf_def zeroEncapsulatedPacket_def)
  have x: "expectedOrder expecting3 0 = 3"
    by (simp add: expectedOrder_def expecting3_def)
  have e: "ChannelOrderIndex expecting3 = [0 \<mapsto> 3]" "SplitPackets expecting3 = Map.empty"
    by (simp_all add: expecting3_def NewSession_def)
  have xb: "expectedOrder halfBuffered 0 = 4"
    by (simp add: expectedOrder_def halfBuffered_def)
  have eb: "ChannelOrderIndex halfBuffered = [0 \<mapsto> 4]"
    "SplitPackets halfBuffered = [0 \<mapsto> [0 \<mapsto> ?h]]"
    by (simp_all add: halfBuffered_def)
  have first4: "handleEncap expecting3 [] (orderedPacket 2) = (expecting3, Returned []) \<and>
   handleEncap expecting3 [] (orderedPacket 3) =
     (expecting3\<lparr>ChannelOrderIndex := [0 \<mapsto> 4]\<rparr>,
      Returned [\<lparr>PacketID = 0x42, Reliability = 0, MessageIndex = 0, OrderIndex = 0,
                 OrderChannel = 0, Payload = [0x07]\<rparr>]) \<and>
   handleEncap expecting3 [] (orderedPacket 4) =
     (expecting3,
      Returned [\<lparr>PacketID = 0x42, Reliability = 0, MessageIndex = 0, OrderIndex = 0,
                 OrderChannel = 0, Payload = [0x07]\<rparr>]) \<and>
   handleEncap expecting3 [] ?h = (halfBuffered, Returned [])"
    using handleEncap_ordered[OF r[of 2] refl refl refl refl, of expecting3 "[]"]
      handleEncap_ordered[OF r[of 3] refl refl refl refl, of expecting3 "[]"]
      handleEncap_ordered[OF r[of 4] refl refl refl refl, of expecting3 "[]"]
      handleEncap_ordered[OF rh refl refl refl refl, of expecting3 "[]"]
    by (simp add: f fh x e halfBuffered_def)
  let ?frags = "[0 \<mapsto> ?h, 1 \<mapsto> secondHalf] :: u32 \<rightharpoonup> EncapsulatedPacket"
  have l2: "[0..<2] = [0, 1]" by (simp add: upt_rec)
  have present: "map (\<lambda>i. ?frags (of_nat i)) [0..<unat (2 :: u32)] = map Some [?h, secondHalf]"
    by (simp add: l2)
  have cnt: "(of_nat (card (dom ?frags)) :: u32) = 2" by simp
  have last: "handleEncap halfBuffered [] secondHalf =
     (halfBuffered\<lparr>ChannelOrderIndex := [0 \<mapsto> 5], SplitPackets := Map.empty\<rparr>,
      Returned [\<lparr>PacketID = 0x42, Reliability = 0, MessageIndex = 0, OrderIndex = 0,
                 OrderChannel = 0, Payload = [0x07, 0x99]\<rparr>])"
    using handleEncap_ordered[OF rs refl refl refl refl,
        where s = halfBuffered and packets = "[]" and fs = "[?h, secondHalf]"]
      present cnt
    by (simp add: fs fh xb eb)
  from first4 last show ?thesis by simp
qed

text \<open>C6 as stated fails on a new session, which expects index 0 on channel 0, for the
  first fragment of a ReliableOrdered group of two at index 0: the index is the expected
  one and becomes 1, and nothing is delivered.\<close>

theorem in_order_fragment_counterexample:
  "EncapsulatedPacket.Reliability firstHalf = RELIABLE_ORDERED \<and>
   EncapsulatedPacket.OrderIndex firstHalf =
     expectedOrder (NewSession testAddr 576 0) (EncapsulatedPacket.OrderChannel firstHalf) \<and>
   snd (HandleDataPacket (NewSession testAddr 576 0)
          \<lparr>DataPacket.SequenceNumber = 0, Packets = [firstHalf]\<rparr> 1) = Returned [] \<and>
   expectedOrder (fst (HandleDataPacket (NewSession testAddr 576 0)
          \<lparr>DataPacket.SequenceNumber = 0, Packets = [firstHalf]\<rparr> 1)) 0 = 1"
proof -
  have fh: "EncapsulatedPacket.Reliability firstHalf = RELIABLE_ORDERED"
    "EncapsulatedPacket.OrderChannel firstHalf = 0" "EncapsulatedPacket.OrderIndex firstHalf = 0"
    "Split firstHalf" "SplitCount firstHalf = 2" "EncapsulatedPacket.SplitID firstHalf = 0"
    "SplitIndex firstHalf = 0"
    by (simp_all add: firstHalf_def zeroEncapsulatedPacket_def)
  define s1 where "s1 = (NewSession testAddr 576 0)\<lparr>ACKQueue := {0}, LastReceiveTime := 1\<rparr>"
  have e: "ChannelOrderIndex s1 = Map.empty" "SplitPackets s1 = Map.empty"
    by (simp_all add: s1_def NewSession_def)
  have h: "handleEncap s1 [] firstHalf =
      (s1\<lparr>ChannelOrderIndex := [0 \<mapsto> 1], SplitPackets := [0 \<mapsto> [0 \<mapsto> firstHalf]]\<rparr>,
       Returned [])"
    by (simp add: handleEncap_def deliverEncap_def Let_def expectedOrder_def hasOrderIndex_def
        fh e)
  have d: "HandleDataPacket (NewSession testAddr 576 0)
          \<lparr>DataPacket.SequenceNumber = 0, Packets = [firstHalf]\<rparr> 1 =
        handleEncaps s1 [] [firstHalf]"
    by (simp add: HandleDataPacket_def Let_def s1_def NewSession_def)
  show ?thesis
    unfolding d by (simp add: h fh expectedOrder_def NewSession_def)
qed

text \<open>\<open>AddToQueue\<close> on a reliable-ordered packet: the order index comes from
  \<open>s.OrderIndex\<close>, which goes up by one, whatever the packet's channel; the per-channel map
  is left alone.\<close>

lemma AddToQueue_ordered:
  assumes "hasOrderIndex (EncapsulatedPacket.Reliability packet)"
  shows "EncapsulatedPacket.OrderIndex (last (SendQueue (AddToQueue s packet))) =
           Session.OrderIndex s \<and>
         Session.OrderIndex (AddToQueue s packet) = Session.OrderIndex s + 1 \<and>
         ChannelOrderIndex (AddToQueue s packet) = ChannelOrderIndex s"
  using assms by (simp add: AddToQueue_def Let_def split: prod.splits)

text \<open>C7, on a new session: a reliable-ordered packet on channel 0 and then one on
  channel 1. Both are stamped from the one counter \<open>s.OrderIndex\<close>, so the first packet
  of channel 1 gets order index 1; the per-channel map \<open>ChannelOrderIndex\<close> is not used.\<close>

theorem AddToQueue_shared_order_counter:
  "SendQueue (AddToQueue (AddToQueue (NewSession testAddr 576 0) (orderedOn 0)) (orderedOn 1)) =
     [(orderedOn 0)\<lparr>EncapsulatedPacket.MessageIndex := 0, EncapsulatedPacket.OrderIndex := 0\<rparr>,
      (orderedOn 1)\<lparr>EncapsulatedPacket.MessageIndex := 1, EncapsulatedPacket.OrderIndex := 1\<rparr>] \<and>
   Session.OrderIndex
     (AddToQueue (AddToQueue (NewSession testAddr 576 0) (orderedOn 0)) (orderedOn 1)) = 2 \<and>
   ChannelOrderIndex
     (AddToQueue (AddToQueue (NewSession testAddr 576 0) (orderedOn 0)) (orderedOn 1)) = Map.empty"
  by (simp add: AddToQueue_def NewSession_def orderedOn_def hasMessageIndex_def
      hasOrderIndex_def reliability_defs zeroEncapsulatedPacket_def Let_def)

text \<open>C10, on a new session: a datagram with one split fragment that declares
  \<open>SplitCount = 1\<close> and \<open>SplitIndex = 5\<close>, as \<open>DecodeDataPacket\<close> reads it from 18 bytes
  off the wire. The group then holds one fragment, the count matches, and the reassembly
  loop reads the missing index 0: the call panics.\<close>

theorem HandleDataPacket_stray_fragment_panics:
  "DecodeDataPacket [0x84, 0x07, 0x00, 0x00, 0x10, 0x00, 0x08, 0x00, 0x00, 0x00, 0x01,
                     0x00, 0x00, 0x00, 0x00, 0x00, 0x05, 0x42] = Inr strayDatagram \<and>
   snd (HandleDataPacket (NewSession testAddr 576 0) strayDatagram 1) = Panicked"
proof -
  let ?bytes = "[0x84, 0x07, 0x00, 0x00, 0x10, 0x00, 0x08, 0x00, 0x00, 0x00, 0x01,
                 0x00, 0x00, 0x00, 0x00, 0x00, 0x05, 0x42] :: byte list"
  have p: "decodePacket ?bytes 4 = Some (strayFragment, 18)"
    by (simp add: decodePacket_def Let_def be16At_def be32At_def decMessageIndex_def
        decSequenceIndex_def decOrderIndex_def decSplit_def decPayload_def
        zeroEncapsulatedPacket_def strayFragment_def hasMessageIndex_def hasOrderIndex_def
        hasSequenceIndex_def reliability_defs)
  have l: "decodeLoop ?bytes 4 [] = [strayFragment]"
    by (subst decodeLoop.simps, simp add: p, subst decodeLoop.simps, simp)
  have dec: "DecodeDataPacket ?bytes = Inr strayDatagram"
    unfolding DecodeDataPacket_def by (simp add: l le24At_def strayDatagram_def)
  have f: "Split strayFragment" "SplitCount strayFragment = 1"
    "EncapsulatedPacket.SplitID strayFragment = 0" "SplitIndex strayFragment = 5"
    "EncapsulatedPacket.Reliability strayFragment = 0"
    by (simp_all add: strayFragment_def zeroEncapsulatedPacket_def)
  have c: "concatFragments [5 \<mapsto> strayFragment] 1 = None"
    by (simp add: concatFragments_def)
  have d: "SplitPackets s 0 = None \<Longrightarrow> snd (deliverEncap s packets strayFragment) = Panicked"
    for s packets
    by (simp add: deliverEncap_def Let_def f c)
  have h: "handleEncap s packets strayFragment = deliverEncap s packets strayFragment"
    for s packets
    by (simp add: handleEncap_def hasOrderIndex_def reliability_defs f)
  define s1 where "s1 = (NewSession testAddr 576 0)\<lparr>ACKQueue := {7}, LastReceiveTime := 1\<rparr>"
  have e: "SplitPackets s1 0 = None" by (simp add: s1_def NewSession_def)
  have "HandleDataPacket (NewSession testAddr 576 0) strayDatagram 1 =
        handleEncaps s1 [] [strayFragment]"
    by (simp add: HandleDataPacket_def Let_def s1_def NewSession_def strayDatagram_def)
  also have "snd \<dots> = Panicked"
    using d[OF e, of "[]"] by (cases "deliverEncap s1 [] strayFragment") (simp add: h)
  finally have "snd (HandleDataPacket (NewSession testAddr 576 0) strayDatagram 1) = Panicked" .
  with dec show ?thesis by simp
qed











text \<open>\<open>ReadUint24\<close> gives values below \<open>2^24\<close>, also when it fails (zero): the bounds of
  a record never make the counter of \<open>seqRange\<close> wrap.\<close>

lemma ReadUint24_bound: "fst (orZero (ReadUint24 bs)) < 2 ^ 24"
proof -
  have b: "(ucast (b1 :: byte) OR push_bit 8 (ucast (b2 :: byte)) OR push_bit 16 (ucast (b3 :: byte)) :: u32) < 2 ^ 24"
    (is "?x < _") for b1 b2 b3
  proof -
    have h: "bit b m \<Longrightarrow> m < 8" for b :: byte and m
      using bit_imp_le_length[of b m] by simp
    have "?x AND mask 24 = ?x"
    proof (rule bit_word_eqI)
      fix n assume "n < LENGTH(32)"
      show "bit (?x AND mask 24) n = bit ?x n"
        using h[of b1 n] h[of b2 "n - 8"] h[of b3 "n - 16"] by (auto simp: bit_simps)
    qed
    moreover have "?x AND mask 24 < 2 ^ 24" by (rule and_mask_less') simp
    ultimately show ?thesis by simp
  qed
  have b': "(ucast (b1 :: byte) OR push_bit 8 (ucast (b2 :: byte)) OR push_bit 16 (ucast (b3 :: byte)) :: u32)
      < 16777216" for b1 b2 b3
    using b[of b1 b2 b3] by simp
  show ?thesis
    by (simp add: orZero_def ReadUint24_def ReadByte_def b' split: prod.splits sum.splits)
qed

lemma readRecord_bounds:
  "fst (fst (readRecord bs)) < 2 ^ 24 \<and> snd (fst (readRecord bs)) < 2 ^ 24"
proof -
  obtain f bs1 where a: "orZero (ReadByte bs) = (f, bs1)" by (cases "orZero (ReadByte bs)")
  obtain st bs2 where b: "orZero (ReadUint24 bs1) = (st, bs2)"
    by (cases "orZero (ReadUint24 bs1)")
  obtain en bs3 where c: "orZero (ReadUint24 bs2) = (en, bs3)"
    by (cases "orZero (ReadUint24 bs2)")
  have "st < 2 ^ 24" using ReadUint24_bound[of bs1] b by simp
  moreover have "en < 2 ^ 24" using ReadUint24_bound[of bs2] c by simp
  ultimately show ?thesis by (simp add: readRecord_def a b c)
qed

lemma foldl_append_SendQueue:
  "foldl (\<lambda>s packet. s\<lparr>SendQueue := SendQueue s @ [packet]\<rparr>) s ps =
     s\<lparr>SendQueue := SendQueue s @ ps\<rparr>"
  by (induction ps arbitrary: s) simp_all

lemma requeue_eq:
  "requeue s seq = s\<lparr>SendQueue := SendQueue s @ recoveryPackets (RecoveryQueue s) seq\<rparr>"
  by (simp add: requeue_def recoveryPackets_def foldl_append_SendQueue split: option.splits)

lemma foldl_requeue:
  "foldl requeue s seqs =
     s\<lparr>SendQueue := SendQueue s @ concat (map (recoveryPackets (RecoveryQueue s)) seqs)\<rparr>"
  by (induction seqs arbitrary: s) (simp_all add: requeue_eq)

lemma nackLoop_eq:
  "nackLoop n bs s =
     s\<lparr>SendQueue := SendQueue s @
          concat (map (recoveryPackets (RecoveryQueue s)) (recordSeqs n bs))\<rparr>"
  by (induction n arbitrary: bs s) (simp_all add: foldl_requeue split: prod.splits)

lemma foldl_deleteRecovery:
  "foldl deleteRecovery s seqs = s\<lparr>RecoveryQueue := RecoveryQueue s |` (- set seqs)\<rparr>"
proof (induction seqs arbitrary: s)
  case Nil
  then show ?case by simp
next
  case (Cons seq seqs)
  have e: "((RecoveryQueue s)(seq := None)) |` (- set seqs) = RecoveryQueue s |` (- set (seq # seqs))"
    by (rule ext) (simp add: restrict_map_def)
  have "foldl deleteRecovery s (seq # seqs) = foldl deleteRecovery (deleteRecovery s seq) seqs"
    by simp
  also have "\<dots> = (deleteRecovery s seq)
      \<lparr>RecoveryQueue := RecoveryQueue (deleteRecovery s seq) |` (- set seqs)\<rparr>"
    by (rule Cons.IH)
  also have "\<dots> = s\<lparr>RecoveryQueue := ((RecoveryQueue s)(seq := None)) |` (- set seqs)\<rparr>"
    unfolding deleteRecovery_def by simp
  also have "\<dots> = s\<lparr>RecoveryQueue := RecoveryQueue s |` (- set (seq # seqs))\<rparr>"
    by (simp only: e)
  finally show ?case .
qed

lemma ackLoop_eq:
  "ackLoop n bs s = s\<lparr>RecoveryQueue := RecoveryQueue s |` (- set (recordSeqs n bs))\<rparr>"
proof (induction n arbitrary: bs s)
  case 0
  then show ?case by simp
next
  case (Suc n)
  obtain start endSeq bs' where r: "readRecord bs = ((start, endSeq), bs')"
    by (cases "readRecord bs") auto
  have e: "(RecoveryQueue s |` (- set (seqRange start endSeq))) |` (- set (recordSeqs n bs')) =
        RecoveryQueue s |` (- set (seqRange start endSeq @ recordSeqs n bs'))"
    by (rule ext) (simp add: restrict_map_def)
  have "ackLoop (Suc n) bs s = ackLoop n bs' (foldl deleteRecovery s (seqRange start endSeq))"
    by (simp add: r)
  also have "\<dots> = s\<lparr>RecoveryQueue :=
      (RecoveryQueue s |` (- set (seqRange start endSeq))) |` (- set (recordSeqs n bs'))\<rparr>"
    unfolding Suc.IH foldl_deleteRecovery by simp
  also have "\<dots> = s\<lparr>RecoveryQueue :=
      RecoveryQueue s |` (- set (seqRange start endSeq @ recordSeqs n bs'))\<rparr>"
    by (simp only: e)
  also have "seqRange start endSeq @ recordSeqs n bs' = recordSeqs (Suc n) bs"
    by (simp add: r)
  finally show ?case .
qed

text \<open>Both handlers in terms of the sequences their loops visit: \<open>HandleNACK\<close> changes
  the send queue only, \<open>HandleACK\<close> the recovery queue only.\<close>

lemma HandleNACK_HandleACK_namedSeqs:
  "HandleNACK s d =
     s\<lparr>SendQueue := SendQueue s @
          concat (map (recoveryPackets (RecoveryQueue s)) (namedSeqs d))\<rparr> \<and>
   HandleACK s d = s\<lparr>RecoveryQueue := RecoveryQueue s |` (- set (namedSeqs d))\<rparr> \<and>
   HandleACK (HandleACK s d) d = HandleACK s d"
proof -
  have n: "HandleNACK s d =
     s\<lparr>SendQueue := SendQueue s @
          concat (map (recoveryPackets (RecoveryQueue s)) (namedSeqs d))\<rparr>" for s
    by (simp add: HandleNACK_def namedSeqs_def Let_def nackLoop_eq split: prod.splits)
  have a: "HandleACK s d = s\<lparr>RecoveryQueue := RecoveryQueue s |` (- set (namedSeqs d))\<rparr>" for s
    by (simp add: HandleACK_def namedSeqs_def Let_def ackLoop_eq split: prod.splits)
  have i: "HandleACK (HandleACK s d) d = HandleACK s d"
    by (simp add: a)
  from n a i show ?thesis by (intro conjI)
qed

text \<open>Once the stream is at its end every read fails, and each further record reads as
  start 0 and end 0.\<close>

lemma readRecord_exhausted:
  assumes "length (data bs) \<le> offset bs"
  shows "readRecord bs = ((0, 0), bs)"
  using assms by (simp add: readRecord_def orZero_def ReadByte_def ReadUint24_def)

lemma recordSeqs_exhausted:
  assumes "length (data bs) \<le> offset bs"
  shows "recordSeqs n bs = replicate n 0"
  using assms
  by (induction n) (simp_all add: readRecord_exhausted seqRange_def)

lemma concat_replicate_single: "concat (replicate n [x]) = replicate n x"
  by (induction n) simp_all

lemma recordSeqs_256:
  "recordSeqs 256 bs =
     (case readRecord bs of ((start, endSeq), bs') \<Rightarrow> seqRange start endSeq @ recordSeqs 255 bs')"
  using recordSeqs.simps(2)[of 255 bs] by (simp split: prod.splits)

lemma namedSeqs_count_little_endian:
  "namedSeqs [f, 0x01, 0x00, 0x01, 0x01, 0x00, 0x00, 0x01, 0x00, 0x00] = 1 # replicate 255 0"
proof -
  let ?d = "[f, 0x01, 0x00, 0x01, 0x01, 0x00, 0x00, 0x01, 0x00, 0x00] :: byte list"
  have hd: "namedSeqs ?d = recordSeqs 256 \<lparr>data = ?d, offset = 3\<rparr>"
    by (simp add: namedSeqs_def NewBitStream_def orZero_def ReadByte_def ReadUint16_def
        ReadBytes_def BigEndian_Uint16_def Let_def numeral_3_eq_3)
  have r: "readRecord \<lparr>data = ?d, offset = 3\<rparr> = ((1, 1), \<lparr>data = ?d, offset = 10\<rparr>)"
    by (simp add: readRecord_def orZero_def ReadByte_def ReadUint24_def Let_def)
  have e: "recordSeqs 255 \<lparr>data = ?d, offset = 10\<rparr> = replicate 255 0"
    by (rule recordSeqs_exhausted) simp
  have s: "seqRange 1 1 = [1]" by (simp add: seqRange_def)
  show ?thesis by (simp only: hd recordSeqs_256 r e s prod.case append.simps)
qed

lemma namedSeqs_ACK_Encode_1: "namedSeqs (ACK_Encode [1]) = replicate 256 0"
proof -
  let ?d = "[0xC0, 0x01, 0x00, 0x01, 0x00, 0x00] :: byte list"
  have a: "ACK_Encode [1] = ?d" by (simp add: ACK_Encode_def appendSeq_def)
  have hd: "namedSeqs ?d = recordSeqs 256 \<lparr>data = ?d, offset = 3\<rparr>"
    by (simp add: namedSeqs_def NewBitStream_def orZero_def ReadByte_def ReadUint16_def
        ReadBytes_def BigEndian_Uint16_def Let_def numeral_3_eq_3)
  have r: "readRecord \<lparr>data = ?d, offset = 3\<rparr> = ((0, 0), \<lparr>data = ?d, offset = 6\<rparr>)"
    by (simp add: readRecord_def orZero_def ReadByte_def ReadUint24_def Let_def)
  have e: "recordSeqs 255 \<lparr>data = ?d, offset = 6\<rparr> = replicate 255 0"
    by (rule recordSeqs_exhausted) simp
  have s: "seqRange 0 0 = [0]" by (simp add: seqRange_def)
  have "namedSeqs ?d = 0 # replicate 255 0"
    by (simp only: hd recordSeqs_256 r e s prod.case append.simps)
  also have "\<dots> = replicate 256 0"
  proof -
    have "(256 :: nat) = Suc 255" by simp
    then show ?thesis by (simp only: replicate.simps)
  qed
  finally show ?thesis by (simp only: a)
qed

lemma twoSent_queues:
  "RecoveryQueue twoSent =
     [0 \<mapsto> \<lparr>DataPacket.SequenceNumber = 0,
             Packets = [(orderedOn 0)\<lparr>EncapsulatedPacket.MessageIndex := 0,
                                      EncapsulatedPacket.OrderIndex := 0\<rparr>]\<rparr>,
      1 \<mapsto> \<lparr>DataPacket.SequenceNumber = 1,
             Packets = [(orderedOn 0)\<lparr>EncapsulatedPacket.MessageIndex := 1,
                                      EncapsulatedPacket.OrderIndex := 1\<rparr>]\<rparr>]"
  "SendQueue twoSent = []"
proof -
  have q: "AddToQueue (NewSession testAddr 576 0) (orderedOn 0) =
      (NewSession testAddr 576 0)
        \<lparr>Session.MessageIndex := 1, Session.OrderIndex := 1,
         SendQueue := [(orderedOn 0)\<lparr>EncapsulatedPacket.MessageIndex := 0,
                                    EncapsulatedPacket.OrderIndex := 0\<rparr>]\<rparr>"
    by (simp add: AddToQueue_def orderedOn_def hasMessageIndex_def hasOrderIndex_def
        reliability_defs NewSession_def Let_def)
  have r: "resendable =
      (NewSession testAddr 576 0)
        \<lparr>Session.MessageIndex := 1, Session.OrderIndex := 1, Session.SequenceNumber := 1,
         RecoveryQueue := [0 \<mapsto> \<lparr>DataPacket.SequenceNumber = 0,
             Packets = [(orderedOn 0)\<lparr>EncapsulatedPacket.MessageIndex := 0,
                                      EncapsulatedPacket.OrderIndex := 0\<rparr>]\<rparr>],
         LastSendTime := 1\<rparr>"
    unfolding resendable_def q
    by (simp add: Update_def Let_def NewSession_def NewDataPacket_def split: prod.splits)
  have q2: "AddToQueue resendable (orderedOn 0) =
      resendable
        \<lparr>Session.MessageIndex := 2, Session.OrderIndex := 2,
         SendQueue := [(orderedOn 0)\<lparr>EncapsulatedPacket.MessageIndex := 1,
                                    EncapsulatedPacket.OrderIndex := 1\<rparr>]\<rparr>"
    by (simp add: r AddToQueue_def orderedOn_def hasMessageIndex_def hasOrderIndex_def
        reliability_defs NewSession_def Let_def)
  show "RecoveryQueue twoSent =
     [0 \<mapsto> \<lparr>DataPacket.SequenceNumber = 0,
             Packets = [(orderedOn 0)\<lparr>EncapsulatedPacket.MessageIndex := 0,
                                      EncapsulatedPacket.OrderIndex := 0\<rparr>]\<rparr>,
      1 \<mapsto> \<lparr>DataPacket.SequenceNumber = 1,
             Packets = [(orderedOn 0)\<lparr>EncapsulatedPacket.MessageIndex := 1,
                                      EncapsulatedPacket.OrderIndex := 1\<rparr>]\<rparr>]"
    and "SendQueue twoSent = []"
    unfolding twoSent_def q2
    by (simp_all add: r Update_def Let_def NewSession_def NewDataPacket_def split: prod.splits)
qed

text \<open>C9, on a session that holds datagrams 0 and 1 for recovery. The ACK for sequence
  1 has its record count 1 written little-endian, \<open>01 00\<close>; \<open>HandleACK\<close> reads the count
  with the big-endian \<open>ReadUint16\<close> as 256, takes the one record, and reads 255 more past
  the end of the packet, each as start 0 and end 0: it removes the entry of sequence 0,
  which no record names, along with that of sequence 1. The ACK that this package's own
  \<open>ACK.Encode\<close> writes for sequence 1 removes the entry of sequence 0 and keeps that of
  sequence 1. The NACK for sequence 1 puts the packet of datagram 1 on the send queue
  once and the packet of datagram 0, which it does not name, 255 times.\<close>

theorem HandleACK_removes_unnamed:
  "RecoveryQueue twoSent 0 =
     Some \<lparr>DataPacket.SequenceNumber = 0,
           Packets = [(orderedOn 0)\<lparr>EncapsulatedPacket.MessageIndex := 0,
                                    EncapsulatedPacket.OrderIndex := 0\<rparr>]\<rparr> \<and>
   RecoveryQueue twoSent 1 =
     Some \<lparr>DataPacket.SequenceNumber = 1,
           Packets = [(orderedOn 0)\<lparr>EncapsulatedPacket.MessageIndex := 1,
                                    EncapsulatedPacket.OrderIndex := 1\<rparr>]\<rparr> \<and>
   RecoveryQueue (HandleACK twoSent ackOfOne) 1 = None \<and>
   RecoveryQueue (HandleACK twoSent ackOfOne) 0 = None \<and>
   RecoveryQueue (HandleACK twoSent (ACK_Encode [1])) 0 = None \<and>
   RecoveryQueue (HandleACK twoSent (ACK_Encode [1])) 1 = RecoveryQueue twoSent 1 \<and>
   SendQueue (HandleNACK twoSent nackOfOne) =
     (orderedOn 0)\<lparr>EncapsulatedPacket.MessageIndex := 1, EncapsulatedPacket.OrderIndex := 1\<rparr>
     # replicate 255
         ((orderedOn 0)\<lparr>EncapsulatedPacket.MessageIndex := 0,
                        EncapsulatedPacket.OrderIndex := 0\<rparr>)"
proof -
  note t = twoSent_queues
  have a: "HandleACK twoSent d =
      twoSent\<lparr>RecoveryQueue := RecoveryQueue twoSent |` (- set (namedSeqs d))\<rparr>" for d
    using HandleNACK_HandleACK_namedSeqs[of twoSent d] by simp
  have n: "HandleNACK twoSent d =
      twoSent\<lparr>SendQueue := SendQueue twoSent @
          concat (map (recoveryPackets (RecoveryQueue twoSent)) (namedSeqs d))\<rparr>" for d
    using HandleNACK_HandleACK_namedSeqs[of twoSent d] by simp
  have k1: "namedSeqs ackOfOne = 1 # replicate 255 0"
    unfolding ackOfOne_def by (rule namedSeqs_count_little_endian)
  have k2: "namedSeqs nackOfOne = 1 # replicate 255 0"
    unfolding nackOfOne_def by (rule namedSeqs_count_little_endian)
  have k3: "namedSeqs (ACK_Encode [1]) = replicate 256 0" by (rule namedSeqs_ACK_Encode_1)
  have r0: "recoveryPackets (RecoveryQueue twoSent) 0 =
      [(orderedOn 0)\<lparr>EncapsulatedPacket.MessageIndex := 0, EncapsulatedPacket.OrderIndex := 0\<rparr>]"
    and r1: "recoveryPackets (RecoveryQueue twoSent) 1 =
      [(orderedOn 0)\<lparr>EncapsulatedPacket.MessageIndex := 1, EncapsulatedPacket.OrderIndex := 1\<rparr>]"
    by (simp_all add: recoveryPackets_def t)
  have nack: "SendQueue (HandleNACK twoSent nackOfOne) =
     (orderedOn 0)\<lparr>EncapsulatedPacket.MessageIndex := 1, EncapsulatedPacket.OrderIndex := 1\<rparr>
     # replicate 255
         ((orderedOn 0)\<lparr>EncapsulatedPacket.MessageIndex := 0,
                        EncapsulatedPacket.OrderIndex := 0\<rparr>)"
    by (simp add: n k2 t(2) r0 r1 concat_replicate_single)
  have ack: "RecoveryQueue (HandleACK twoSent ackOfOne) 1 = None"
    "RecoveryQueue (HandleACK twoSent ackOfOne) 0 = None"
    by (simp_all add: a k1 restrict_map_def)
  have own: "RecoveryQueue (HandleACK twoSent (ACK_Encode [1])) 0 = None"
    "RecoveryQueue (HandleACK twoSent (ACK_Encode [1])) 1 = RecoveryQueue twoSent 1"
    by (simp_all add: a k3 restrict_map_def)
  have rq: "RecoveryQueue twoSent 0 =
     Some \<lparr>DataPacket.SequenceNumber = 0,
           Packets = [(orderedOn 0)\<lparr>EncapsulatedPacket.MessageIndex := 0,
                                    EncapsulatedPacket.OrderIndex := 0\<rparr>]\<rparr>"
    "RecoveryQueue twoSent 1 =
     Some \<lparr>DataPacket.SequenceNumber = 1,
           Packets = [(orderedOn 0)\<lparr>EncapsulatedPacket.MessageIndex := 1,
                                    EncapsulatedPacket.OrderIndex := 1\<rparr>]\<rparr>"
    by (simp_all add: t)
  from rq ack own nack show ?thesis by (intro conjI)
qed

end
